theory Spec2Isabelle
  imports Main "HOL-Library.AList"
begin

section \<open>JavaScript values as the gateway client uses them\<close>

text \<open>
  The client in \<^verbatim>\<open>api-proxy.js\<close> handles the results of \<^verbatim>\<open>JSON.parse\<close>. A value is one of
  the JSON shapes, or \<^verbatim>\<open>undefined\<close> (what reading an absent property gives). Objects keep
  their properties in insertion order. Numbers are only copied and tested for being zero by this
  code (\<^verbatim>\<open>Date.now()\<close> is an integer), so integers stand for them.
\<close>

datatype jsval =
    JUndefined
  | JNull
  | JBool bool
  | JNum int
  | JStr string
  | JArr "jsval list"
  | JObj "(string \<times> jsval) list"

text \<open>Truthiness, as used by \<^verbatim>\<open>!x\<close>, \<^verbatim>\<open>x || y\<close> and \<^verbatim>\<open>if (x)\<close>.\<close>

fun truthy :: "jsval \<Rightarrow> bool" where
  "truthy JUndefined = False"
| "truthy JNull = False"
| "truthy (JBool b) = b"
| "truthy (JNum n) = (n \<noteq> 0)"
| "truthy (JStr s) = (s \<noteq> [])"
| "truthy (JArr xs) = True"
| "truthy (JObj kvs) = True"

text \<open>\<^verbatim>\<open>a || b\<close>\<close>

definition js_or :: "jsval \<Rightarrow> jsval \<Rightarrow> jsval" where
  "js_or a b = (if truthy a then a else b)"

fun nullish :: "jsval \<Rightarrow> bool" where
  "nullish JUndefined = True"
| "nullish JNull = True"
| "nullish v = False"

text \<open>
  \<^verbatim>\<open>v.k\<close> for a value that is neither \<^verbatim>\<open>null\<close> nor \<^verbatim>\<open>undefined\<close>. The property names
  read by the client (\<^verbatim>\<open>type\<close>, \<^verbatim>\<open>event\<close>, \<^verbatim>\<open>payload\<close>, \<^verbatim>\<open>nonce\<close>, \<^verbatim>\<open>id\<close>, \<^verbatim>\<open>ok\<close>,
  \<^verbatim>\<open>result\<close>, \<^verbatim>\<open>error\<close>, \<^verbatim>\<open>message\<close>, \<^verbatim>\<open>snapshot\<close>) are not properties of arrays,
  strings, numbers or booleans, so those give \<^verbatim>\<open>undefined\<close>.
\<close>

fun get_prop :: "jsval \<Rightarrow> string \<Rightarrow> jsval" where
  "get_prop (JObj kvs) k = (case map_of kvs k of None \<Rightarrow> JUndefined | Some v \<Rightarrow> v)"
| "get_prop v k = JUndefined"

text \<open>\<^verbatim>\<open>v?.k\<close>\<close>

definition opt_prop :: "jsval \<Rightarrow> string \<Rightarrow> jsval" where
  "opt_prop v k = (if nullish v then JUndefined else get_prop v k)"

subsection \<open>Conversion to strings\<close>

definition digit_chars :: string where
  "digit_chars = ''0123456789''"

fun string_of_nat :: "nat \<Rightarrow> string" where
  "string_of_nat n =
     (if n < 10 then [digit_chars ! n]
      else string_of_nat (n div 10) @ [digit_chars ! (n mod 10)])"

declare string_of_nat.simps [simp del]

fun join_comma :: "string list \<Rightarrow> string" where
  "join_comma [] = []"
| "join_comma [x] = x"
| "join_comma (x # y # ys) = x @ '','' @ join_comma (y # ys)"

text \<open>
  \<^verbatim>\<open>String(v)\<close>, which is what a template literal \<^verbatim>\<open>`${v}`\<close> and \<^verbatim>\<open>new Error(v)\<close> apply to
  a value.
\<close>

fun js_to_string :: "jsval \<Rightarrow> string" where
  "js_to_string JUndefined = ''undefined''"
| "js_to_string JNull = ''null''"
| "js_to_string (JBool b) = (if b then ''true'' else ''false'')"
| "js_to_string (JNum n) =
     (if n < 0 then ''-'' @ string_of_nat (nat (- n)) else string_of_nat (nat n))"
| "js_to_string (JStr s) = s"
| "js_to_string (JArr xs) =
     join_comma (map (\<lambda>x. if nullish x then [] else js_to_string x) xs)"
| "js_to_string (JObj kvs) = ''[object Object]''"

subsection \<open>Object spread\<close>

fun indexed_from :: "nat \<Rightarrow> jsval list \<Rightarrow> (string \<times> jsval) list" where
  "indexed_from i [] = []"
| "indexed_from i (x # xs) = (string_of_nat i, x) # indexed_from (Suc i) xs"

text \<open>The own enumerable properties that \<^verbatim>\<open>...v\<close> copies into an object literal.\<close>

fun own_props :: "jsval \<Rightarrow> (string \<times> jsval) list" where
  "own_props (JObj kvs) = kvs"
| "own_props (JArr xs) = indexed_from 0 xs"
| "own_props (JStr s) = indexed_from 0 (map (\<lambda>c. JStr [c]) s)"
| "own_props v = []"

text \<open>
  An object literal is filled left to right; a later property of the same name replaces the
  value of the earlier one and keeps its place. (JavaScript lists keys that look like array
  indices first; nothing below depends on the order of keys, only on the value found under
  a name.)
\<close>

fun object_of :: "(string \<times> jsval) list \<Rightarrow> (string \<times> jsval) list \<Rightarrow> (string \<times> jsval) list" where
  "object_of acc [] = acc"
| "object_of acc ((k, v) # kvs) = object_of (AList.update k v acc) kvs"

section \<open>The client's state\<close>

text \<open>
  The module-level variables \<^verbatim>\<open>gwSocket\<close>, \<^verbatim>\<open>gwReady\<close>, \<^verbatim>\<open>gwPending\<close>, \<^verbatim>\<open>gwReqId\<close>,
  \<^verbatim>\<open>gwEvents\<close>, \<^verbatim>\<open>gwReconnectTimer\<close>, \<^verbatim>\<open>gwStartTime\<close> and \<^verbatim>\<open>gwSnapshot\<close>, together
  with what the code does to its collaborators: the timers armed by \<^verbatim>\<open>setTimeout\<close>, the
  frames handed to \<^verbatim>\<open>gwSocket.send\<close>, the calls of \<^verbatim>\<open>gwSocket.close\<close>, and every
  invocation of a \<^verbatim>\<open>resolve\<close> or \<^verbatim>\<open>reject\<close> function stored in the pending map.

  The socket is an object of the \<^verbatim>\<open>ws\<close> package. The code reads only its \<^verbatim>\<open>readyState\<close>,
  which is what \<^verbatim>\<open>gwSocket\<close> holds here (\<open>None\<close> for \<^verbatim>\<open>null\<close>). \<^verbatim>\<open>send\<close> is taken to
  accept the frame, which is recorded as it is before \<^verbatim>\<open>JSON.stringify\<close>; \<^verbatim>\<open>close\<close> starts
  the closing handshake, and the \<^verbatim>\<open>close\<close> event is delivered later by the runtime. There is
  one socket at a time: \<^verbatim>\<open>gwConnect\<close> runs when the server starts listening and from the
  reconnect timer, and that timer is armed only by a \<^verbatim>\<open>close\<close> handler, after it has set
  \<^verbatim>\<open>gwSocket\<close> to \<^verbatim>\<open>null\<close>. Timer handles and promises are numbered in creation order.
  Logging is left out.
\<close>

datatype ready_state = CONNECTING | OPEN | CLOSING | CLOSED

text \<open>
  The pair of functions stored in a pending entry: those of \<^verbatim>\<open>gwSendConnect\<close>, or the
  \<^verbatim>\<open>resolve\<close> and \<^verbatim>\<open>reject\<close> of the promise created by one \<^verbatim>\<open>gwCall\<close> (promises are
  numbered in creation order).
\<close>

datatype callback = ConnectCb | CallCb nat

datatype outcome = Resolved jsval | Rejected string

record pending_call =
  handler :: callback
  timer :: nat

text \<open>The three closures passed to \<^verbatim>\<open>setTimeout\<close>, with the variables they capture.\<close>

datatype timer_action =
    ReconnectFire
  | ConnectTimeout string
  | RpcTimeout string jsval nat

datatype js_error = TypeError

record gw_state =
  gwSocket :: "ready_state option"
  gwReady :: bool
  gwPending :: "(string \<times> pending_call) list"
  gwReqId :: nat
  gwEvents :: "jsval list"
  gwReconnectTimer :: "nat option"
  gwStartTime :: int
  gwSnapshot :: jsval
  timers :: "(nat \<times> nat \<times> timer_action) list"
  next_timer :: nat
  next_promise :: nat
  invoked :: "(callback \<times> outcome) list"
  sent :: "jsval list"
  close_calls :: "(nat \<times> string) list"

text \<open>Constants read from the process environment.\<close>

record host =
  TOKEN :: string
  GATEWAY :: string
  platform :: string

text \<open>What the runtime supplies while one handler runs: \<^verbatim>\<open>Date.now()\<close> and the two
  results of \<^verbatim>\<open>crypto.randomUUID()\<close> in \<^verbatim>\<open>gwSendConnect\<close>.\<close>

record inputs =
  now :: int
  uuid_id :: string
  uuid_instance :: string

definition init_state :: "int \<Rightarrow> gw_state" where
  "init_state t0 =
     \<lparr>gwSocket = None, gwReady = False, gwPending = [], gwReqId = 0, gwEvents = [],
      gwReconnectTimer = None, gwStartTime = t0, gwSnapshot = JNull,
      timers = [], next_timer = 0, next_promise = 0, invoked = [], sent = [],
      close_calls = []\<rparr>"

subsection \<open>Timers and callbacks\<close>

text \<open>\<^verbatim>\<open>setTimeout(f, ms)\<close> returns a fresh handle; \<^verbatim>\<open>clearTimeout(t)\<close> disarms it.\<close>

definition set_timeout :: "timer_action \<Rightarrow> nat \<Rightarrow> gw_state \<Rightarrow> nat \<times> gw_state" where
  "set_timeout act ms s =
     (next_timer s,
      s\<lparr>timers := timers s @ [(next_timer s, ms, act)], next_timer := Suc (next_timer s)\<rparr>)"

definition clear_timeout :: "nat \<Rightarrow> gw_state \<Rightarrow> gw_state" where
  "clear_timeout t s = s\<lparr>timers := AList.delete t (timers s)\<rparr>"

text \<open>
  Calling \<^verbatim>\<open>resolve\<close> or \<^verbatim>\<open>reject\<close> of a pending entry. For the authentication request
  (lines 125-130) \<^verbatim>\<open>resolve\<close> sets \<^verbatim>\<open>gwReady\<close> and the snapshot and \<^verbatim>\<open>reject\<close> only logs;
  for a call they are the promise's own functions. Each invocation is recorded.
\<close>

fun invoke_cb :: "callback \<Rightarrow> outcome \<Rightarrow> gw_state \<Rightarrow> gw_state" where
  "invoke_cb ConnectCb (Resolved payload) s =
     s\<lparr>gwReady := True,
       gwSnapshot := js_or (opt_prop payload ''snapshot'') payload,
       invoked := invoked s @ [(ConnectCb, Resolved payload)]\<rparr>"
| "invoke_cb ConnectCb (Rejected m) s = s\<lparr>invoked := invoked s @ [(ConnectCb, Rejected m)]\<rparr>"
| "invoke_cb (CallCb p) out s = s\<lparr>invoked := invoked s @ [(CallCb p, out)]\<rparr>"

subsection \<open>gwConnect, gwSendConnect, gwCall\<close>

definition gwConnect :: "gw_state \<Rightarrow> gw_state" where
  "gwConnect s =
     (if gwSocket s = Some OPEN \<or> gwSocket s = Some CONNECTING then s
      else s\<lparr>gwSocket := Some CONNECTING, gwReady := False\<rparr>)"

definition connect_frame :: "host \<Rightarrow> inputs \<Rightarrow> jsval" where
  "connect_frame h r =
     JObj [(''type'', JStr ''req''), (''id'', JStr (uuid_id r)), (''method'', JStr ''connect''),
       (''params'', JObj [
          (''minProtocol'', JNum 3), (''maxProtocol'', JNum 3),
          (''client'', JObj [(''id'', JStr ''gateway-client''),
             (''displayName'', JStr ''Mission Control''), (''version'', JStr ''1.0.0''),
             (''platform'', JStr (platform h)), (''mode'', JStr ''backend''),
             (''instanceId'', JStr (uuid_instance r))]),
          (''caps'', JArr []),
          (''auth'', JObj [(''token'', JStr (TOKEN h))]),
          (''role'', JStr ''operator''),
          (''scopes'', JArr [JStr ''operator.admin'', JStr ''operator.approvals'',
             JStr ''operator.pairing'']),
          (''userAgent'', JStr ''MissionControl/1.0'')])]"

text \<open>\<^verbatim>\<open>gwSocket.send\<close> on \<^verbatim>\<open>null\<close> is a TypeError; otherwise the frame goes to the socket.\<close>

definition gwSendConnect :: "host \<Rightarrow> inputs \<Rightarrow> jsval \<Rightarrow> gw_state \<Rightarrow> js_error + gw_state" where
  "gwSendConnect h r nonce s =
     (case gwSocket s of
        None \<Rightarrow> Inl TypeError
      | Some rs \<Rightarrow>
          (let s1 = s\<lparr>sent := sent s @ [connect_frame h r]\<rparr>;
               (t, s2) = set_timeout (ConnectTimeout (uuid_id r)) 10000 s1
           in Inr (s2\<lparr>gwPending :=
                 AList.update (uuid_id r) \<lparr>handler = ConnectCb, timer = t\<rparr> (gwPending s2)\<rparr>)))"

text \<open>
  \<^verbatim>\<open>++gwReqId\<close> on a JavaScript number: exact below \<open>2^53\<close>, where adding one rounds back to
  the same value.
\<close>

definition js_incr :: "nat \<Rightarrow> nat" where
  "js_incr n = (if n < 2 ^ 53 then n + 1 else n)"

definition rpc_id :: "nat \<Rightarrow> string" where
  "rpc_id n = ''rpc-'' @ string_of_nat n"

definition rpc_frame :: "jsval \<Rightarrow> string \<Rightarrow> jsval \<Rightarrow> jsval" where
  "rpc_frame method ident args =
     JObj [(''type'', JStr ''req''), (''method'', method), (''id'', JStr ident),
       (''params'', js_or args (JObj []))]"

text \<open>
  \<^verbatim>\<open>gwCall(method, args, timeoutMs = 15000)\<close>. The promise it returns is the next promise
  number; its executor runs at once.
\<close>

definition gwCall :: "jsval \<Rightarrow> jsval \<Rightarrow> nat option \<Rightarrow> gw_state \<Rightarrow> gw_state" where
  "gwCall method args timeoutMs s =
     (let p = next_promise s; s0 = s\<lparr>next_promise := Suc p\<rparr> in
      if gwSocket s0 = None \<or> \<not> gwReady s0
      then invoke_cb (CallCb p) (Rejected ''not connected to gateway'') s0
      else
        (let s1 = s0\<lparr>gwReqId := js_incr (gwReqId s0)\<rparr>;
             ident = rpc_id (gwReqId s1);
             (t, s2) = set_timeout (RpcTimeout ident method p)
                         (case timeoutMs of None \<Rightarrow> 15000 | Some ms \<Rightarrow> ms) s1;
             s3 = s2\<lparr>gwPending :=
                    AList.update ident \<lparr>handler = CallCb p, timer = t\<rparr> (gwPending s2)\<rparr>
         in s3\<lparr>sent := sent s3 @ [rpc_frame method ident args]\<rparr>))"

subsection \<open>The socket's event handlers\<close>

text \<open>\<^verbatim>\<open>gwSocket.close(code, reason)\<close>: the socket starts its closing handshake; the
  \<^verbatim>\<open>close\<close> event comes later.\<close>

definition ws_close :: "nat \<Rightarrow> string \<Rightarrow> gw_state \<Rightarrow> js_error + gw_state" where
  "ws_close code reason s =
     (case gwSocket s of
        None \<Rightarrow> Inl TypeError
      | Some rs \<Rightarrow>
          Inr (s\<lparr>gwSocket := Some (if rs = CLOSED then CLOSED else CLOSING),
                 close_calls := close_calls s @ [(code, reason)]\<rparr>))"

text \<open>\<^verbatim>\<open>gwPending.get(k)\<close>: the keys are strings, so only a string finds an entry.\<close>

fun pending_get :: "jsval \<Rightarrow> (string \<times> pending_call) list \<Rightarrow> pending_call option" where
  "pending_get (JStr k) m = map_of m k"
| "pending_get v m = None"

fun pending_delete :: "jsval \<Rightarrow> (string \<times> pending_call) list \<Rightarrow> (string \<times> pending_call) list" where
  "pending_delete (JStr k) m = AList.delete k m"
| "pending_delete v m = m"

definition event_record :: "int \<Rightarrow> jsval \<Rightarrow> jsval" where
  "event_record t msg = JObj (object_of [] ((''time'', JNum t) # own_props msg))"

definition health_merge :: "jsval \<Rightarrow> jsval \<Rightarrow> jsval" where
  "health_merge snapshot payload =
     JObj (object_of [] (own_props snapshot @ [(''health'', payload)]))"

text \<open>
  The \<^verbatim>\<open>message\<close> handler (lines 43-77). \<open>None\<close> is data on which \<^verbatim>\<open>JSON.parse\<close> throws.
  \<^verbatim>\<open>JSON.parse\<close> can return \<^verbatim>\<open>null\<close>, and \<^verbatim>\<open>msg.type\<close> then throws outside the
  \<^verbatim>\<open>try\<close>.
\<close>

definition on_message :: "host \<Rightarrow> inputs \<Rightarrow> jsval option \<Rightarrow> gw_state \<Rightarrow> js_error + gw_state" where
  "on_message h r data s =
     (case data of
        None \<Rightarrow> Inr s
      | Some msg \<Rightarrow>
          if nullish msg then Inl TypeError
          else if get_prop msg ''type'' = JStr ''event''
                  \<and> get_prop msg ''event'' = JStr ''connect.challenge''
          then
            (let nonce = opt_prop (get_prop msg ''payload'') ''nonce'' in
             if \<not> truthy nonce then ws_close 1008 ''no nonce'' s
             else gwSendConnect h r nonce s)
          else if get_prop msg ''type'' = JStr ''event''
          then
            (let s1 = (if get_prop msg ''event'' = JStr ''health'' \<and> truthy (get_prop msg ''payload'')
                       then s\<lparr>gwSnapshot := health_merge (gwSnapshot s) (get_prop msg ''payload'')\<rparr>
                       else s);
                 s2 = s1\<lparr>gwEvents := gwEvents s1 @ [event_record (now r) msg]\<rparr>
             in Inr (if length (gwEvents s2) > 50 then s2\<lparr>gwEvents := tl (gwEvents s2)\<rparr> else s2))
          else if get_prop msg ''type'' = JStr ''res'' \<and> truthy (get_prop msg ''id'')
          then
            (case pending_get (get_prop msg ''id'') (gwPending s) of
               None \<Rightarrow> Inr s
             | Some pending \<Rightarrow>
                 (let s1 = s\<lparr>gwPending := pending_delete (get_prop msg ''id'') (gwPending s)\<rparr>;
                      s2 = clear_timeout (timer pending) s1
                  in Inr (if get_prop msg ''ok'' \<noteq> JBool False
                          then invoke_cb (handler pending)
                                 (Resolved (js_or (get_prop msg ''payload'')
                                              (js_or (get_prop msg ''result'') msg))) s2
                          else invoke_cb (handler pending)
                                 (Rejected (js_to_string
                                    (js_or (opt_prop (get_prop msg ''error'') ''message'')
                                       (JStr ''RPC error'')))) s2)))
          else Inr s)"

text \<open>The loop of the \<^verbatim>\<open>close\<close> handler over the pending map, in insertion order.\<close>

fun reject_all :: "(string \<times> pending_call) list \<Rightarrow> gw_state \<Rightarrow> gw_state" where
  "reject_all [] s = s"
| "reject_all ((k, p) # ps) s =
     reject_all ps (invoke_cb (handler p) (Rejected ''connection lost'') (clear_timeout (timer p) s))"

text \<open>The \<^verbatim>\<open>close\<close> handler (lines 79-93).\<close>

definition on_close :: "gw_state \<Rightarrow> gw_state" where
  "on_close s =
     (let s1 = s\<lparr>gwReady := False, gwSocket := None\<rparr>;
          s2 = reject_all (gwPending s1) s1;
          s3 = s2\<lparr>gwPending := []\<rparr>
      in if gwReconnectTimer s3 = None
         then (let (t, s4) = set_timeout ReconnectFire 3000 s3 in s4\<lparr>gwReconnectTimer := Some t\<rparr>)
         else s3)"

text \<open>
  A timer firing. A handle that is not armed (cleared, or fired before) runs nothing. The
  handle leaves the armed set, then the closure runs: lines 91, 131-134 and 146-149.
\<close>

definition on_timer :: "nat \<Rightarrow> gw_state \<Rightarrow> gw_state" where
  "on_timer t s =
     (case map_of (timers s) t of
        None \<Rightarrow> s
      | Some (ms, act) \<Rightarrow>
          (let s1 = s\<lparr>timers := AList.delete t (timers s)\<rparr> in
           case act of
             ReconnectFire \<Rightarrow> gwConnect (s1\<lparr>gwReconnectTimer := None\<rparr>)
           | ConnectTimeout ident \<Rightarrow> s1\<lparr>gwPending := AList.delete ident (gwPending s1)\<rparr>
           | RpcTimeout ident method p \<Rightarrow>
               invoke_cb (CallCb p) (Rejected (''RPC timeout: '' @ js_to_string method))
                 (s1\<lparr>gwPending := AList.delete ident (gwPending s1)\<rparr>)))"

text \<open>The \<^verbatim>\<open>open\<close> handler only logs; the socket itself is now open.\<close>

definition on_open :: "gw_state \<Rightarrow> gw_state" where
  "on_open s = s\<lparr>gwSocket := (case gwSocket s of Some CONNECTING \<Rightarrow> Some OPEN | x \<Rightarrow> x)\<rparr>"

subsection \<open>The event loop\<close>

text \<open>
  Everything that makes the client run: the server starts listening (line 351 calls
  \<^verbatim>\<open>gwConnect\<close>), the socket emits \<^verbatim>\<open>open\<close>, \<^verbatim>\<open>message\<close>, \<^verbatim>\<open>close\<close> or \<^verbatim>\<open>error\<close>, a timer
  fires, or the \<^verbatim>\<open>/rpc\<close> route calls \<^verbatim>\<open>gwCall(rpcMethod, args || {})\<close>.
\<close>

datatype event =
    Listening
  | WsOpen
  | WsMessage "jsval option"
  | WsClose
  | WsError
  | TimerFire nat
  | RpcRequest jsval jsval

fun step :: "host \<Rightarrow> gw_state \<Rightarrow> inputs \<times> event \<Rightarrow> js_error + gw_state" where
  "step h s (r, Listening) = Inr (gwConnect s)"
| "step h s (r, WsOpen) = Inr (on_open s)"
| "step h s (r, WsMessage data) = on_message h r data s"
| "step h s (r, WsClose) = Inr (on_close s)"
| "step h s (r, WsError) = Inr s"
| "step h s (r, TimerFire t) = Inr (on_timer t s)"
| "step h s (r, RpcRequest rpcMethod args) =
     Inr (gwCall rpcMethod (js_or args (JObj [])) None s)"

text \<open>An uncaught exception in a handler ends the process: the run stops there.\<close>

fun run :: "host \<Rightarrow> gw_state \<Rightarrow> (inputs \<times> event) list \<Rightarrow> js_error + gw_state" where
  "run h s [] = Inr s"
| "run h s (e # es) = (case step h s e of Inl err \<Rightarrow> Inl err | Inr s' \<Rightarrow> run h s' es)"

subsection \<open>The routes that read the client\<close>

text \<open>
  Lines 301-304, 311-327 and 329-338: what the HTTP layer answers from the client's state, as
  a status code and the value given to \<^verbatim>\<open>JSON.stringify\<close>. The \<^verbatim>\<open>/rpc\<close> answer is produced
  when the promise of \<^verbatim>\<open>gwCall\<close> settles.
\<close>

definition rpc_reply :: "jsval \<Rightarrow> outcome \<Rightarrow> nat \<times> jsval" where
  "rpc_reply rpcMethod out =
     (case out of
        Resolved result \<Rightarrow> (200, result)
      | Rejected m \<Rightarrow> (502, JObj [(''error'', JStr m), (''method'', rpcMethod)]))"

definition snapshot_reply :: "gw_state \<Rightarrow> nat \<times> jsval" where
  "snapshot_reply s = (200, js_or (gwSnapshot s) (JObj [(''error'', JStr ''no snapshot yet'')]))"

definition events_reply :: "gw_state \<Rightarrow> nat \<times> jsval" where
  "events_reply s = (200, JObj [(''events'', JArr (gwEvents s))])"

text \<open>\<open>isoTime\<close> is \<^verbatim>\<open>new Date().toISOString()\<close>.\<close>

definition health_reply :: "host \<Rightarrow> int \<Rightarrow> string \<Rightarrow> gw_state \<Rightarrow> nat \<times> jsval" where
  "health_reply h t isoTime s =
     (200, JObj [(''status'', JStr ''ok''), (''gateway'', JStr (GATEWAY h)),
        (''gatewayConnected'', JBool (gwReady s)),
        (''uptime'', JNum ((t - gwStartTime s) div 1000)),
        (''time'', JStr isoTime)])"

section \<open>Observations and invariants\<close>

text \<open>
  How often the \<^verbatim>\<open>resolve\<close> or \<^verbatim>\<open>reject\<close> function of promise \<open>q\<close> has been called, the
  outcome lines 72-73 deliver for a response frame, and the relation between the pending
  map, the armed timers and the recorded invocations that every handler preserves.
\<close>

definition settle_count :: "(callback \<times> outcome) list \<Rightarrow> nat \<Rightarrow> nat" where
  "settle_count log q = length (filter (\<lambda>(c, out). c = CallCb q) log)"

fun guards :: "string \<Rightarrow> callback \<Rightarrow> timer_action \<Rightarrow> bool" where
  "guards k ConnectCb (ConnectTimeout k') = (k' = k)"
| "guards k (CallCb q) (RpcTimeout k' m q') = (k' = k \<and> q' = q)"
| "guards k c act = False"

fun promise_of :: "timer_action \<Rightarrow> nat option" where
  "promise_of (RpcTimeout k m q) = Some q"
| "promise_of act = None"

type_synonym timer_map = "nat \<rightharpoonup> nat \<times> timer_action"

definition pending_guarded :: "timer_map \<Rightarrow> (string \<rightharpoonup> pending_call) \<Rightarrow> bool" where
  "pending_guarded T P \<longleftrightarrow>
     (\<forall>k p. P k = Some p \<longrightarrow> (\<exists>ms act. T (timer p) = Some (ms, act) \<and> guards k (handler p) act))"

definition reconnect_ok :: "timer_map \<Rightarrow> nat option \<Rightarrow> bool" where
  "reconnect_ok T rt \<longleftrightarrow> (\<forall>t. (\<exists>ms. T t = Some (ms, ReconnectFire)) \<longleftrightarrow> rt = Some t)"

definition one_timer_each :: "timer_map \<Rightarrow> bool" where
  "one_timer_each T \<longleftrightarrow>
     (\<forall>t1 t2 x1 x2 q. T t1 = Some x1 \<longrightarrow> T t2 = Some x2 \<longrightarrow>
        promise_of (snd x1) = Some q \<longrightarrow> promise_of (snd x2) = Some q \<longrightarrow> t1 = t2)"

definition armed :: "timer_map \<Rightarrow> nat \<Rightarrow> bool" where
  "armed T q \<longleftrightarrow> (\<exists>t x. T t = Some x \<and> promise_of (snd x) = Some q)"

definition armed_iff_unsettled :: "timer_map \<Rightarrow> (callback \<times> outcome) list \<Rightarrow> nat \<Rightarrow> bool" where
  "armed_iff_unsettled T log np \<longleftrightarrow>
     (\<forall>q. armed T q \<longleftrightarrow> (q < np \<and> settle_count log q = 0))"

definition settled_once :: "(callback \<times> outcome) list \<Rightarrow> nat \<Rightarrow> bool" where
  "settled_once log np \<longleftrightarrow>
     (\<forall>q. settle_count log q \<le> 1) \<and> (\<forall>q. np \<le> q \<longrightarrow> settle_count log q = 0)"

definition inv_maps ::
  "timer_map \<Rightarrow> (string \<rightharpoonup> pending_call) \<Rightarrow> nat option \<Rightarrow> (callback \<times> outcome) list \<Rightarrow> nat \<Rightarrow> bool" where
  "inv_maps T P rt log np \<longleftrightarrow>
     pending_guarded T P \<and> reconnect_ok T rt \<and> one_timer_each T
     \<and> armed_iff_unsettled T log np \<and> settled_once log np"


definition inv_with :: "(string \<times> pending_call) list \<Rightarrow> gw_state \<Rightarrow> bool" where
  "inv_with ps s \<longleftrightarrow>
     distinct (map fst (timers s)) \<and> (\<forall>t \<in> fst ` set (timers s). t < next_timer s)
     \<and> (\<forall>x \<in> set (timers s). snd (snd x) = ReconnectFire \<longrightarrow> fst (snd x) = 3000)
     \<and> distinct (map fst ps)
     \<and> inv_maps (map_of (timers s)) (map_of ps) (gwReconnectTimer s) (invoked s) (next_promise s)"

definition inv :: "gw_state \<Rightarrow> bool" where
  "inv s = inv_with (gwPending s) s"


definition response_outcome :: "jsval \<Rightarrow> outcome" where
  "response_outcome msg =
     (if get_prop msg ''ok'' \<noteq> JBool False
      then Resolved (js_or (get_prop msg ''payload'') (js_or (get_prop msg ''result'') msg))
      else Rejected (js_to_string
             (js_or (opt_prop (get_prop msg ''error'') ''message'') (JStr ''RPC error''))))"

text \<open>The armed timers whose closure is the reconnect of line 91.\<close>

definition reconnect_timers :: "gw_state \<Rightarrow> (nat \<times> nat \<times> timer_action) list" where
  "reconnect_timers s = filter (\<lambda>x. snd (snd x) = ReconnectFire) (timers s)"

section \<open>Example inputs\<close>

definition example_host :: host where
  "example_host = \<lparr>TOKEN = ''secret'', GATEWAY = ''http://127.0.0.1:54924'', platform = ''linux''\<rparr>"

definition example_inputs :: "int \<Rightarrow> inputs" where
  "example_inputs t =
     \<lparr>now = t, uuid_id = ''0b6f3c1e-52a4-4d0e-9b7a-0c1d2e3f4a5b'',
      uuid_instance = ''7d9e8f00-1a2b-4c3d-8e4f-5a6b7c8d9e0f''\<rparr>"

definition tick_event :: jsval where
  "tick_event = JObj [(''type'', JStr ''event''), (''event'', JStr ''tick''),
     (''payload'', JObj [(''seq'', JNum 1)])]"

definition timed_event :: jsval where
  "timed_event = JObj [(''type'', JStr ''event''), (''event'', JStr ''tick''),
     (''time'', JNum 7)]"

definition full_buffer_state :: gw_state where
  "full_buffer_state = (init_state 0)\<lparr>gwEvents := replicate 50 (event_record 1000 tick_event)\<rparr>"

definition challenge_event :: jsval where
  "challenge_event = JObj [(''type'', JStr ''event''), (''event'', JStr ''connect.challenge''),
     (''payload'', JObj [(''nonce'', JStr ''n-1'')])]"

definition auth_accepted :: jsval where
  "auth_accepted = JObj [(''type'', JStr ''res''), (''id'', JStr (uuid_id (example_inputs 0))),
     (''ok'', JBool True),
     (''payload'', JObj [(''snapshot'', JObj [(''presence'', JArr [])])])]"

definition handshake_run :: "(inputs \<times> event) list" where
  "handshake_run =
     [(example_inputs 0, Listening), (example_inputs 1, WsOpen),
      (example_inputs 2, WsMessage (Some challenge_event)),
      (example_inputs 3, WsMessage (Some auth_accepted))]"

definition ready_state :: gw_state where
  "ready_state =
     \<lparr>gwSocket = Some OPEN, gwReady = True, gwPending = [], gwReqId = 0, gwEvents = [],
      gwReconnectTimer = None, gwStartTime = 0,
      gwSnapshot = JObj [(''presence'', JArr [])],
      timers = [], next_timer = 1, next_promise = 0,
      invoked = [(ConnectCb, Resolved (JObj [(''snapshot'', JObj [(''presence'', JArr [])])]))],
      sent = [connect_frame example_host (example_inputs 2)],
      close_calls = []\<rparr>"

definition two_calls_run :: "(inputs \<times> event) list" where
  "two_calls_run =
     handshake_run @
     [(example_inputs 10, RpcRequest (JStr ''status.get'') (JObj [])),
      (example_inputs 11, RpcRequest (JStr ''sessions.list'') JUndefined)]"

definition two_calls_state :: gw_state where
  "two_calls_state =
     ready_state
       \<lparr>gwPending := [(''rpc-1'', \<lparr>handler = CallCb 0, timer = 1\<rparr>),
                       (''rpc-2'', \<lparr>handler = CallCb 1, timer = 2\<rparr>)],
        gwReqId := 2,
        timers := [(1, 15000, RpcTimeout ''rpc-1'' (JStr ''status.get'') 0),
                   (2, 15000, RpcTimeout ''rpc-2'' (JStr ''sessions.list'') 1)],
        next_timer := 3, next_promise := 2,
        sent := [connect_frame example_host (example_inputs 2),
                 rpc_frame (JStr ''status.get'') ''rpc-1'' (JObj []),
                 rpc_frame (JStr ''sessions.list'') ''rpc-2'' (JObj [])]\<rparr>"

definition sessions_response :: jsval where
  "sessions_response = JObj [(''type'', JStr ''res''), (''id'', JStr ''rpc-2''), (''ok'', JBool True),
     (''payload'', JObj [(''sessions'', JArr [])])]"



definition bare_ok_response :: jsval where
  "bare_ok_response = JObj [(''type'', JStr ''res''), (''id'', JStr ''rpc-1''), (''ok'', JBool True)]"

definition bare_reply_state :: gw_state where
  "bare_reply_state =
     two_calls_state
       \<lparr>gwPending := [(''rpc-2'', \<lparr>handler = CallCb 1, timer = 2\<rparr>)],
        timers := [(2, 15000, RpcTimeout ''rpc-2'' (JStr ''sessions.list'') 1)],
        invoked := invoked two_calls_state @ [(CallCb 0, Resolved bare_ok_response)]\<rparr>"








section \<open>Auxiliary facts\<close>

lemma map_of_object_of:
  assumes "distinct (map fst kvs)"
  shows "map_of (object_of acc kvs) k =
     (case map_of kvs k of None \<Rightarrow> map_of acc k | Some v \<Rightarrow> Some v)"
  using assms
proof (induction kvs arbitrary: acc)
  case Nil
  show ?case by simp
next
  case (Cons kv kvs)
  obtain k' v' where kv: "kv = (k', v')" by (cases kv)
  from Cons.prems kv have fresh: "map_of kvs k' = None" and d: "distinct (map fst kvs)"
    by (auto simp add: map_of_eq_None_iff)
  show ?case
    using fresh by (simp add: kv Cons.IH [OF d] AList.update_conv' split: option.splits)
qed

lemma event_record_time:
  assumes "distinct (map fst kvs)"
  shows "get_prop (event_record t (JObj kvs)) ''time'' =
           (case map_of kvs ''time'' of None \<Rightarrow> JNum t | Some v \<Rightarrow> v)"
proof -
  have "map_of (object_of [(''time'', JNum t)] kvs) ''time'' =
          (case map_of kvs ''time'' of None \<Rightarrow> Some (JNum t) | Some v \<Rightarrow> Some v)"
    by (simp add: map_of_object_of [OF assms] split: option.splits)
  then show ?thesis
    by (simp add: event_record_def split: option.splits)
qed

lemma type_event_is_object:
  "get_prop msg k = JStr x \<Longrightarrow> \<exists>kvs. msg = JObj kvs"
  by (cases msg) simp_all

lemma invoke_cb_fields [simp]:
  "gwEvents (invoke_cb c out s) = gwEvents s"
  "timers (invoke_cb c out s) = timers s"
  "next_timer (invoke_cb c out s) = next_timer s"
  "next_promise (invoke_cb c out s) = next_promise s"
  "gwPending (invoke_cb c out s) = gwPending s"
  "gwReqId (invoke_cb c out s) = gwReqId s"
  "gwSocket (invoke_cb c out s) = gwSocket s"
  "gwReconnectTimer (invoke_cb c out s) = gwReconnectTimer s"
  "sent (invoke_cb c out s) = sent s"
  "close_calls (invoke_cb c out s) = close_calls s"
  "invoked (invoke_cb c out s) = invoked s @ [(c, out)]"
  by (cases c; cases out; simp)+

lemma invoke_cb_rejected [simp]:
  "gwReady (invoke_cb c (Rejected m) s) = gwReady s"
  "gwSnapshot (invoke_cb c (Rejected m) s) = gwSnapshot s"
  by (cases c; simp)+

lemma clear_timeout_fields [simp]:
  "gwEvents (clear_timeout t s) = gwEvents s"
  "timers (clear_timeout t s) = AList.delete t (timers s)"
  "next_timer (clear_timeout t s) = next_timer s"
  "next_promise (clear_timeout t s) = next_promise s"
  "gwPending (clear_timeout t s) = gwPending s"
  "gwReqId (clear_timeout t s) = gwReqId s"
  "gwSocket (clear_timeout t s) = gwSocket s"
  "gwReady (clear_timeout t s) = gwReady s"
  "gwSnapshot (clear_timeout t s) = gwSnapshot s"
  "gwReconnectTimer (clear_timeout t s) = gwReconnectTimer s"
  "sent (clear_timeout t s) = sent s"
  "close_calls (clear_timeout t s) = close_calls s"
  "invoked (clear_timeout t s) = invoked s"
  by (simp_all add: clear_timeout_def)

lemma reject_all_fields [simp]:
  "gwEvents (reject_all ps s) = gwEvents s"
  "next_timer (reject_all ps s) = next_timer s"
  "next_promise (reject_all ps s) = next_promise s"
  "gwPending (reject_all ps s) = gwPending s"
  "gwReqId (reject_all ps s) = gwReqId s"
  "gwSocket (reject_all ps s) = gwSocket s"
  "gwReady (reject_all ps s) = gwReady s"
  "gwSnapshot (reject_all ps s) = gwSnapshot s"
  "gwReconnectTimer (reject_all ps s) = gwReconnectTimer s"
  "sent (reject_all ps s) = sent s"
  "close_calls (reject_all ps s) = close_calls s"
  by (induction ps s rule: reject_all.induct; simp)+

lemma gwEvents_gwConnect [simp]: "gwEvents (gwConnect s) = gwEvents s"
  by (simp add: gwConnect_def)

lemma gwEvents_on_open [simp]: "gwEvents (on_open s) = gwEvents s"
  by (simp add: on_open_def)

lemma gwEvents_on_close [simp]: "gwEvents (on_close s) = gwEvents s"
  by (simp add: on_close_def set_timeout_def Let_def)

lemma gwEvents_on_timer [simp]: "gwEvents (on_timer t s) = gwEvents s"
  by (simp add: on_timer_def Let_def split: option.splits timer_action.splits)

lemma gwEvents_gwCall [simp]: "gwEvents (gwCall m a t s) = gwEvents s"
  by (simp add: gwCall_def set_timeout_def Let_def)

lemma gwEvents_ws_close: "ws_close c m s = Inr s' \<Longrightarrow> gwEvents s' = gwEvents s"
  by (auto simp add: ws_close_def split: option.splits)

lemma gwEvents_gwSendConnect: "gwSendConnect h r n s = Inr s' \<Longrightarrow> gwEvents s' = gwEvents s"
  by (auto simp add: gwSendConnect_def set_timeout_def Let_def split: option.splits)

lemma on_message_plain_event:
  assumes "get_prop msg ''type'' = JStr ''event''"
      and "get_prop msg ''event'' \<noteq> JStr ''connect.challenge''"
      and "on_message h r (Some msg) s = Inr s'"
  shows "gwEvents s' =
           (if 50 \<le> length (gwEvents s) then tl (gwEvents s @ [event_record (now r) msg])
            else gwEvents s @ [event_record (now r) msg])"
proof -
  from assms(1) have "\<not> nullish msg" by (cases msg) simp_all
  with assms show ?thesis
    by (auto simp add: on_message_def Let_def)
qed

lemma on_message_events_cases:
  assumes "on_message h r data s = Inr s'"
  shows "gwEvents s' = gwEvents s
         \<or> (\<exists>msg. data = Some msg \<and> get_prop msg ''type'' = JStr ''event''
               \<and> get_prop msg ''event'' \<noteq> JStr ''connect.challenge'')"
proof (cases data)
  case None
  with assms show ?thesis by (simp add: on_message_def)
next
  case (Some msg)
  show ?thesis
  proof (cases "get_prop msg ''type'' = JStr ''event''
                  \<and> get_prop msg ''event'' \<noteq> JStr ''connect.challenge''")
    case True
    with Some show ?thesis by simp
  next
    case False
    with assms Some have "gwEvents s' = gwEvents s"
      by (auto simp add: on_message_def Let_def gwEvents_ws_close gwEvents_gwSendConnect
                split: if_splits option.splits)
    then show ?thesis by simp
  qed
qed

lemma on_message_events_bounded:
  assumes "length (gwEvents s) \<le> 50" and "on_message h r data s = Inr s'"
  shows "length (gwEvents s') \<le> 50"
proof -
  from on_message_events_cases [OF assms(2)] show ?thesis
  proof
    assume "gwEvents s' = gwEvents s"
    with assms(1) show ?thesis by simp
  next
    assume "\<exists>msg. data = Some msg \<and> get_prop msg ''type'' = JStr ''event''
               \<and> get_prop msg ''event'' \<noteq> JStr ''connect.challenge''"
    then obtain msg where m: "data = Some msg" "get_prop msg ''type'' = JStr ''event''"
      "get_prop msg ''event'' \<noteq> JStr ''connect.challenge''" by blast
    from assms(2) m(1) have "on_message h r (Some msg) s = Inr s'" by simp
    from on_message_plain_event [OF m(2,3) this] assms(1) show ?thesis by auto
  qed
qed

lemma run_induct:
  assumes "run h s0 es = Inr s" and "P s0"
      and "\<And>s e s'. P s \<Longrightarrow> step h s e = Inr s' \<Longrightarrow> P s'"
  shows "P s"
  using assms(1,2)
proof (induction es arbitrary: s0)
  case Nil
  then show ?case by simp
next
  case (Cons e es)
  then obtain s1 where s1: "step h s0 e = Inr s1" and rest: "run h s1 es = Inr s"
    by (auto split: sum.splits)
  from assms(3) [OF Cons.prems(2) s1] have "P s1" .
  with Cons.IH rest show ?case by blast
qed

lemma step_events_bounded:
  assumes "length (gwEvents s) \<le> 50" and "step h s e = Inr s'"
  shows "length (gwEvents s') \<le> 50"
proof -
  obtain r ev where e: "e = (r, ev)" by (cases e)
  show ?thesis
    using assms unfolding e
    by (cases ev) (auto simp add: on_message_events_bounded)
qed

lemma run_events_bounded:
  assumes "run h (init_state t0) es = Inr s"
  shows "length (gwEvents s) \<le> 50"
  by (rule run_induct [OF assms, where P = "\<lambda>s. length (gwEvents s) \<le> 50"])
     (simp_all add: init_state_def step_events_bounded)

lemma run_replicate_events:
  assumes "get_prop ev ''type'' = JStr ''event''"
      and "get_prop ev ''event'' \<noteq> JStr ''connect.challenge''"
      and "get_prop ev ''event'' \<noteq> JStr ''health''"
  shows "length (gwEvents s) + n \<le> 50 \<Longrightarrow>
         run h s (replicate n (r, WsMessage (Some ev))) =
           Inr (s\<lparr>gwEvents := gwEvents s @ replicate n (event_record (now r) ev)\<rparr>)"
proof (induction n arbitrary: s)
  case 0
  show ?case by simp
next
  case (Suc n)
  from assms(1) have nn: "\<not> nullish ev" by (cases ev) simp_all
  have one: "on_message h r (Some ev) s = Inr (s\<lparr>gwEvents := gwEvents s @ [event_record (now r) ev]\<rparr>)"
    using assms nn Suc.prems by (simp add: on_message_def Let_def)
  from Suc.prems have "length (gwEvents (s\<lparr>gwEvents := gwEvents s @ [event_record (now r) ev]\<rparr>)) + n \<le> 50"
    by simp
  from Suc.IH [OF this] one show ?case
    by (simp add: replicate_app_Cons_same)
qed

section \<open>The invariant and its preservation\<close>

lemma settle_count_snoc [simp]:
  "settle_count (log @ [(c, out)]) q = settle_count log q + (if c = CallCb q then 1 else 0)"
  by (simp add: settle_count_def)

lemma settle_count_Nil [simp]: "settle_count [] q = 0"
  by (simp add: settle_count_def)

lemma guards_key: "guards k c act \<Longrightarrow> guards k' c' act \<Longrightarrow> k = k'"
  by (cases c; cases act; cases c'; simp)

lemma guards_not_reconnect [simp]: "\<not> guards k c ReconnectFire"
  by (cases c) simp_all

lemma guards_connect: "guards k ConnectCb act \<longleftrightarrow> act = ConnectTimeout k"
  by (cases act) auto

lemma guards_call: "guards k (CallCb q) act \<longleftrightarrow> (\<exists>m. act = RpcTimeout k m q)"
  by (cases act) auto

lemma armedI: "T t = Some x \<Longrightarrow> promise_of (snd x) = Some q \<Longrightarrow> armed T q"
  unfolding armed_def by blast


lemma reconnect_okD1: "reconnect_ok T rt \<Longrightarrow> T t = Some (ms, ReconnectFire) \<Longrightarrow> rt = Some t"
  unfolding reconnect_ok_def by blast

lemma reconnect_okD2: "reconnect_ok T rt \<Longrightarrow> rt = Some t \<Longrightarrow> \<exists>ms. T t = Some (ms, ReconnectFire)"
  unfolding reconnect_ok_def by blast

lemma armed_add:
  assumes "T t = None"
  shows "armed (T(t \<mapsto> (ms, act))) q \<longleftrightarrow> armed T q \<or> promise_of act = Some q"
proof
  assume "armed (T(t \<mapsto> (ms, act))) q"
  then obtain t' x where "(T(t \<mapsto> (ms, act))) t' = Some x" "promise_of (snd x) = Some q"
    unfolding armed_def by blast
  then show "armed T q \<or> promise_of act = Some q"
    by (cases "t' = t") (auto intro: armedI)
next
  assume "armed T q \<or> promise_of act = Some q"
  then show "armed (T(t \<mapsto> (ms, act))) q"
  proof
    assume "armed T q"
    then obtain t' x where t': "T t' = Some x" "promise_of (snd x) = Some q"
      unfolding armed_def by blast
    with assms have "t' \<noteq> t" by auto
    with t' have "(T(t \<mapsto> (ms, act))) t' = Some x" by simp
    with t' show ?thesis unfolding armed_def by blast
  next
    assume "promise_of act = Some q"
    then have "(T(t \<mapsto> (ms, act))) t = Some (ms, act) \<and> promise_of (snd (ms, act)) = Some q"
      by simp
    then show ?thesis unfolding armed_def by blast
  qed
qed

lemma armed_remove:
  assumes "one_timer_each T" and "T t = Some (ms, act)"
  shows "armed (T(t := None)) q \<longleftrightarrow> armed T q \<and> promise_of act \<noteq> Some q"
proof
  assume "armed (T(t := None)) q"
  then obtain t' x where t': "t' \<noteq> t" "T t' = Some x" "promise_of (snd x) = Some q"
    unfolding armed_def by (auto split: if_splits)
  then have "armed T q" unfolding armed_def by blast
  moreover have "promise_of act \<noteq> Some q"
  proof
    assume "promise_of act = Some q"
    with assms t' have "t' = t" unfolding one_timer_each_def
      by (metis snd_conv)
    with t' show False by simp
  qed
  ultimately show "armed T q \<and> promise_of act \<noteq> Some q" by simp
next
  assume a: "armed T q \<and> promise_of act \<noteq> Some q"
  then obtain t' x where t': "T t' = Some x" "promise_of (snd x) = Some q"
    unfolding armed_def by blast
  with a assms(2) have "t' \<noteq> t" by auto
  with t' have "(T(t := None)) t' = Some x" by simp
  with t' show "armed (T(t := None)) q" unfolding armed_def by blast
qed

lemma one_timer_each_remove: "one_timer_each T \<Longrightarrow> one_timer_each (T(t := None))"
  unfolding one_timer_each_def by (auto split: if_splits) 

lemma one_timer_each_add:
  assumes "one_timer_each T" and "T t = None"
      and "\<And>q. promise_of act = Some q \<Longrightarrow> \<not> armed T q"
  shows "one_timer_each (T(t \<mapsto> (ms, act)))"
  using assms unfolding one_timer_each_def armed_def
  by (auto split: if_splits) 

lemma reconnect_ok_remove:
  assumes "reconnect_ok T rt" and "T t = Some (ms, act)"
  shows "reconnect_ok (T(t := None)) (if act = ReconnectFire then None else rt)"
proof (cases "act = ReconnectFire")
  case True
  with assms have rt: "rt = Some t" unfolding reconnect_ok_def by blast
  have "\<not> (\<exists>ms'. (T(t := None)) t' = Some (ms', ReconnectFire))" for t'
  proof (cases "t' = t")
    case True
    then show ?thesis by simp
  next
    case False
    with rt have "rt \<noteq> Some t'" by simp
    with assms(1) have "\<not> (\<exists>ms'. T t' = Some (ms', ReconnectFire))"
      unfolding reconnect_ok_def by blast
    with False show ?thesis by simp
  qed
  with True show ?thesis unfolding reconnect_ok_def by simp
next
  case False
  with assms have rt: "rt \<noteq> Some t" by (auto dest: reconnect_okD2)
  have "(\<exists>ms'. (T(t := None)) t' = Some (ms', ReconnectFire)) \<longleftrightarrow> rt = Some t'" for t'
  proof (cases "t' = t")
    case True
    with rt show ?thesis by simp
  next
    case False
    with assms(1) show ?thesis unfolding reconnect_ok_def by simp
  qed
  with False show ?thesis unfolding reconnect_ok_def by simp
qed

lemma reconnect_ok_add:
  assumes "reconnect_ok T rt" and "T t = None" and "act = ReconnectFire \<Longrightarrow> rt = None"
  shows "reconnect_ok (T(t \<mapsto> (ms, act))) (if act = ReconnectFire then Some t else rt)"
proof -
  from assms(1,2) have rt: "rt \<noteq> Some t" by (auto dest: reconnect_okD2)
  have "(\<exists>ms'. (T(t \<mapsto> (ms, act))) t' = Some (ms', ReconnectFire))
          \<longleftrightarrow> (if act = ReconnectFire then Some t else rt) = Some t'" for t'
  proof (cases "t' = t")
    case True
    with rt show ?thesis by auto
  next
    case False
    have "(\<exists>ms'. T t' = Some (ms', ReconnectFire)) \<longleftrightarrow> rt = Some t'"
      using assms(1) unfolding reconnect_ok_def by blast
    with False assms(3) show ?thesis by auto
  qed
  then show ?thesis unfolding reconnect_ok_def by blast
qed

lemma pending_guarded_remove:
  assumes "pending_guarded T P" and "T t = Some (ms, act)"
      and "\<And>k' c. guards k' c act \<Longrightarrow> k' = k"
  shows "pending_guarded (T(t := None)) (P(k := None))"
  unfolding pending_guarded_def
proof (intro allI impI)
  fix k' p assume "(P(k := None)) k' = Some p"
  then have k': "k' \<noteq> k" "P k' = Some p" by (auto split: if_splits)
  with assms(1) obtain ms' act' where e: "T (timer p) = Some (ms', act')" "guards k' (handler p) act'"
    unfolding pending_guarded_def by blast
  have "timer p \<noteq> t"
  proof
    assume "timer p = t"
    with e assms(2) have "act' = act" by simp
    with e(2) assms(3) k'(1) show False by blast
  qed
  with e show "\<exists>ms act. (T(t := None)) (timer p) = Some (ms, act) \<and> guards k' (handler p) act"
    by simp
qed

lemma pending_guarded_remove_reconnect:
  assumes "pending_guarded T P" and "T t = Some (ms, ReconnectFire)"
  shows "pending_guarded (T(t := None)) P"
  unfolding pending_guarded_def
proof (intro allI impI)
  fix k' p assume "P k' = Some p"
  with assms(1) obtain ms' act' where e: "T (timer p) = Some (ms', act')" "guards k' (handler p) act'"
    unfolding pending_guarded_def by blast
  with assms(2) have "timer p \<noteq> t" by auto
  with e show "\<exists>ms act. (T(t := None)) (timer p) = Some (ms, act) \<and> guards k' (handler p) act"
    by simp
qed

lemma pending_guarded_add:
  assumes "pending_guarded T P" and "T t = None" and "guards k c act"
  shows "pending_guarded (T(t \<mapsto> (ms, act))) (P(k \<mapsto> \<lparr>handler = c, timer = t\<rparr>))"
  unfolding pending_guarded_def
proof (intro allI impI)
  fix k' p assume a: "(P(k \<mapsto> \<lparr>handler = c, timer = t\<rparr>)) k' = Some p"
  show "\<exists>ms' act'. (T(t \<mapsto> (ms, act))) (timer p) = Some (ms', act') \<and> guards k' (handler p) act'"
  proof (cases "k' = k")
    case True
    with a assms(3) show ?thesis by auto
  next
    case False
    with a have "P k' = Some p" by simp
    with assms(1) obtain ms' act' where e: "T (timer p) = Some (ms', act')" "guards k' (handler p) act'"
      unfolding pending_guarded_def by blast
    with assms(2) have "timer p \<noteq> t" by auto
    with e show ?thesis by simp
  qed
qed

lemma pending_guarded_add_timer:
  assumes "pending_guarded T P" and "T t = None"
  shows "pending_guarded (T(t \<mapsto> x)) P"
  using assms unfolding pending_guarded_def
  by (metis fun_upd_apply option.distinct(1))

lemma pending_guarded_empty [simp]: "pending_guarded T Map.empty"
  by (simp add: pending_guarded_def)


lemma inv_maps_init: "inv_maps Map.empty Map.empty None [] 0"
  by (simp add: inv_maps_def reconnect_ok_def one_timer_each_def armed_iff_unsettled_def
        armed_def settled_once_def)

lemma inv_maps_log_connect:
  "inv_maps T P rt (log @ [(ConnectCb, out)]) np = inv_maps T P rt log np"
  by (simp add: inv_maps_def armed_iff_unsettled_def settled_once_def)

lemma inv_maps_drop_pending: "inv_maps T P rt log np \<Longrightarrow> inv_maps T Map.empty rt log np"
  by (simp add: inv_maps_def)

lemma inv_maps_arm_rpc:
  assumes "inv_maps T P rt log np" and "T nt = None"
  shows "inv_maps (T(nt \<mapsto> (ms, RpcTimeout k m np)))
           (P(k \<mapsto> \<lparr>handler = CallCb np, timer = nt\<rparr>)) rt log (Suc np)"
proof -
  from assms(1) have pg: "pending_guarded T P" and ro: "reconnect_ok T rt"
    and ot: "one_timer_each T" and au: "armed_iff_unsettled T log np" and so: "settled_once log np"
    by (simp_all add: inv_maps_def)
  from au have na: "\<not> armed T np" by (simp add: armed_iff_unsettled_def)
  from so have c0: "settle_count log np = 0" by (simp add: settled_once_def)
  have "pending_guarded (T(nt \<mapsto> (ms, RpcTimeout k m np)))
          (P(k \<mapsto> \<lparr>handler = CallCb np, timer = nt\<rparr>))"
    by (rule pending_guarded_add [OF pg assms(2)]) simp
  moreover have "reconnect_ok (T(nt \<mapsto> (ms, RpcTimeout k m np))) rt"
    using reconnect_ok_add [OF ro assms(2), of "RpcTimeout k m np" ms] by simp
  moreover have "one_timer_each (T(nt \<mapsto> (ms, RpcTimeout k m np)))"
    by (rule one_timer_each_add [OF ot assms(2)]) (simp add: na)
  moreover have "armed_iff_unsettled (T(nt \<mapsto> (ms, RpcTimeout k m np))) log (Suc np)"
    using au c0 unfolding armed_iff_unsettled_def armed_add [of T nt, OF assms(2)]
    by (auto simp add: less_Suc_eq)
  moreover have "settled_once log (Suc np)"
    using so by (simp add: settled_once_def)
  ultimately show ?thesis by (simp add: inv_maps_def)
qed

lemma inv_maps_arm_connect:
  assumes "inv_maps T P rt log np" and "T nt = None"
  shows "inv_maps (T(nt \<mapsto> (ms, ConnectTimeout k)))
           (P(k \<mapsto> \<lparr>handler = ConnectCb, timer = nt\<rparr>)) rt log np"
proof -
  from assms(1) have pg: "pending_guarded T P" and ro: "reconnect_ok T rt"
    and ot: "one_timer_each T" and au: "armed_iff_unsettled T log np" and so: "settled_once log np"
    by (simp_all add: inv_maps_def)
  have "pending_guarded (T(nt \<mapsto> (ms, ConnectTimeout k)))
          (P(k \<mapsto> \<lparr>handler = ConnectCb, timer = nt\<rparr>))"
    by (rule pending_guarded_add [OF pg assms(2)]) simp
  moreover have "reconnect_ok (T(nt \<mapsto> (ms, ConnectTimeout k))) rt"
    using reconnect_ok_add [OF ro assms(2), of "ConnectTimeout k" ms] by simp
  moreover have "one_timer_each (T(nt \<mapsto> (ms, ConnectTimeout k)))"
    by (rule one_timer_each_add [OF ot assms(2)]) simp
  moreover have "armed_iff_unsettled (T(nt \<mapsto> (ms, ConnectTimeout k))) log np"
    using au unfolding armed_iff_unsettled_def armed_add [of T nt, OF assms(2)] by simp
  ultimately show ?thesis using so by (simp add: inv_maps_def)
qed

lemma inv_maps_arm_reconnect:
  assumes "inv_maps T P None log np" and "T nt = None"
  shows "inv_maps (T(nt \<mapsto> (ms, ReconnectFire))) P (Some nt) log np"
proof -
  from assms(1) have pg: "pending_guarded T P" and ro: "reconnect_ok T None"
    and ot: "one_timer_each T" and au: "armed_iff_unsettled T log np" and so: "settled_once log np"
    by (simp_all add: inv_maps_def)
  have "pending_guarded (T(nt \<mapsto> (ms, ReconnectFire))) P"
    by (rule pending_guarded_add_timer [OF pg assms(2)])
  moreover have "reconnect_ok (T(nt \<mapsto> (ms, ReconnectFire))) (Some nt)"
    using reconnect_ok_add [OF ro assms(2), of ReconnectFire ms] by simp
  moreover have "one_timer_each (T(nt \<mapsto> (ms, ReconnectFire)))"
    by (rule one_timer_each_add [OF ot assms(2)]) simp
  moreover have "armed_iff_unsettled (T(nt \<mapsto> (ms, ReconnectFire))) log np"
    using au unfolding armed_iff_unsettled_def armed_add [of T nt, OF assms(2)] by simp
  ultimately show ?thesis using so by (simp add: inv_maps_def)
qed

lemma inv_maps_not_ready:
  assumes "inv_maps T P rt log np"
  shows "inv_maps T P rt (log @ [(CallCb np, out)]) (Suc np)"
proof -
  from assms(1) have pg: "pending_guarded T P" and ro: "reconnect_ok T rt"
    and ot: "one_timer_each T" and au: "armed_iff_unsettled T log np" and so: "settled_once log np"
    by (simp_all add: inv_maps_def)
  have "armed_iff_unsettled T (log @ [(CallCb np, out)]) (Suc np)"
    using au unfolding armed_iff_unsettled_def by (auto simp add: less_Suc_eq)
  moreover have "settled_once (log @ [(CallCb np, out)]) (Suc np)"
    using so unfolding settled_once_def by auto
  ultimately show ?thesis using pg ro ot by (simp add: inv_maps_def)
qed

lemma inv_maps_remove_rpc:
  assumes "inv_maps T P rt log np" and "T t = Some (ms, RpcTimeout k m q)"
  shows "inv_maps (T(t := None)) (P(k := None)) rt (log @ [(CallCb q, out)]) np"
proof -
  from assms(1) have pg: "pending_guarded T P" and ro: "reconnect_ok T rt"
    and ot: "one_timer_each T" and au: "armed_iff_unsettled T log np" and so: "settled_once log np"
    by (simp_all add: inv_maps_def)
  from assms(2) have "armed T q" by (auto intro: armedI)
  with au have q: "q < np" "settle_count log q = 0" by (simp_all add: armed_iff_unsettled_def)
  have "pending_guarded (T(t := None)) (P(k := None))"
  proof (rule pending_guarded_remove [OF pg assms(2)])
    fix k' c assume "guards k' c (RpcTimeout k m q)"
    then show "k' = k" by (cases c) simp_all
  qed
  moreover have "reconnect_ok (T(t := None)) rt"
    using reconnect_ok_remove [OF ro assms(2)] by simp
  moreover have "one_timer_each (T(t := None))"
    by (rule one_timer_each_remove [OF ot])
  moreover have "armed_iff_unsettled (T(t := None)) (log @ [(CallCb q, out)]) np"
    using au q unfolding armed_iff_unsettled_def armed_remove [OF ot assms(2)] by auto
  moreover have "settled_once (log @ [(CallCb q, out)]) np"
    using so q unfolding settled_once_def by auto
  ultimately show ?thesis by (simp add: inv_maps_def)
qed

lemma inv_maps_remove_connect:
  assumes "inv_maps T P rt log np" and "T t = Some (ms, ConnectTimeout k)"
  shows "inv_maps (T(t := None)) (P(k := None)) rt log np"
proof -
  from assms(1) have pg: "pending_guarded T P" and ro: "reconnect_ok T rt"
    and ot: "one_timer_each T" and au: "armed_iff_unsettled T log np" and so: "settled_once log np"
    by (simp_all add: inv_maps_def)
  have "pending_guarded (T(t := None)) (P(k := None))"
  proof (rule pending_guarded_remove [OF pg assms(2)])
    fix k' c assume "guards k' c (ConnectTimeout k)"
    then show "k' = k" by (cases c) simp_all
  qed
  moreover have "reconnect_ok (T(t := None)) rt"
    using reconnect_ok_remove [OF ro assms(2)] by simp
  moreover have "one_timer_each (T(t := None))"
    by (rule one_timer_each_remove [OF ot])
  moreover have "armed_iff_unsettled (T(t := None)) log np"
    using au unfolding armed_iff_unsettled_def armed_remove [OF ot assms(2)] by simp
  ultimately show ?thesis using so by (simp add: inv_maps_def)
qed

lemma inv_maps_remove_reconnect:
  assumes "inv_maps T P rt log np" and "T t = Some (ms, ReconnectFire)"
  shows "inv_maps (T(t := None)) P None log np"
proof -
  from assms(1) have pg: "pending_guarded T P" and ro: "reconnect_ok T rt"
    and ot: "one_timer_each T" and au: "armed_iff_unsettled T log np" and so: "settled_once log np"
    by (simp_all add: inv_maps_def)
  have "pending_guarded (T(t := None)) P"
    by (rule pending_guarded_remove_reconnect [OF pg assms(2)])
  moreover have "reconnect_ok (T(t := None)) None"
    using reconnect_ok_remove [OF ro assms(2)] by simp
  moreover have "one_timer_each (T(t := None))"
    by (rule one_timer_each_remove [OF ot])
  moreover have "armed_iff_unsettled (T(t := None)) log np"
    using au unfolding armed_iff_unsettled_def armed_remove [OF ot assms(2)] by simp
  ultimately show ?thesis using so by (simp add: inv_maps_def)
qed

text \<open>Settling a pending entry: its timer is cleared, the entry leaves the map, its callback runs.\<close>

lemma inv_maps_settle:
  assumes "inv_maps T P rt log np" and "P k = Some p"
  shows "inv_maps (T(timer p := None)) (P(k := None)) rt (log @ [(handler p, out)]) np"
proof -
  from assms obtain ms act where t: "T (timer p) = Some (ms, act)" and g: "guards k (handler p) act"
    unfolding inv_maps_def pending_guarded_def by blast
  show ?thesis
  proof (cases "handler p")
    case ConnectCb
    with g have "act = ConnectTimeout k" by (simp add: guards_connect)
    with t inv_maps_remove_connect [OF assms(1)] ConnectCb show ?thesis
      by (simp add: inv_maps_log_connect)
  next
    case (CallCb q)
    with g obtain m where "act = RpcTimeout k m q" by (auto simp add: guards_call)
    with t inv_maps_remove_rpc [OF assms(1)] CallCb show ?thesis by simp
  qed
qed


subsection \<open>The invariant on states\<close>

lemma map_of_snoc_fresh:
  assumes "t \<notin> fst ` set ts"
  shows "map_of (ts @ [(t, x)]) = (map_of ts)(t \<mapsto> x)"
proof -
  from assms have n: "map_of ts t = None" by (simp add: map_of_eq_None_iff)
  show ?thesis
    by (rule ext) (auto simp add: map_add_def n split: option.splits)
qed

lemma inv_with_fields:
  assumes "timers s' = timers s" "next_timer s' = next_timer s"
    "gwReconnectTimer s' = gwReconnectTimer s" "invoked s' = invoked s"
    "next_promise s' = next_promise s"
  shows "inv_with ps s' = inv_with ps s"
  by (simp add: inv_with_def assms)

lemma inv_init: "inv (init_state t0)"
  by (simp add: inv_def inv_with_def init_state_def inv_maps_init)

lemma inv_gwConnect: "inv s \<Longrightarrow> inv (gwConnect s)"
  by (simp add: inv_def gwConnect_def inv_with_def)

lemma inv_on_open: "inv s \<Longrightarrow> inv (on_open s)"
  by (simp add: inv_def on_open_def inv_with_def)

lemma fresh_timer:
  assumes "inv_with ps s"
  shows "next_timer s \<notin> fst ` set (timers s)" and "map_of (timers s) (next_timer s) = None"
proof -
  from assms show a: "next_timer s \<notin> fst ` set (timers s)"
    unfolding inv_with_def by blast
  then show "map_of (timers s) (next_timer s) = None" by (simp add: map_of_eq_None_iff)
qed

lemma inv_with_arm:
  assumes "inv_with ps s"
      and "inv_maps ((map_of (timers s))(next_timer s \<mapsto> (ms, act))) (map_of ps')
             (gwReconnectTimer s') (invoked s') (next_promise s')"
      and "distinct (map fst ps')"
      and "timers s' = timers s @ [(next_timer s, ms, act)]"
      and "next_timer s' = Suc (next_timer s)"
      and "act = ReconnectFire \<Longrightarrow> ms = 3000"
  shows "inv_with ps' s'"
proof -
  note f = fresh_timer [OF assms(1)]
  from assms(1) have d: "distinct (map fst (timers s))"
    "\<forall>t \<in> fst ` set (timers s). t < next_timer s"
    "\<forall>x \<in> set (timers s). snd (snd x) = ReconnectFire \<longrightarrow> fst (snd x) = 3000"
    by (simp_all add: inv_with_def)
  from d(2) have b: "\<forall>t \<in> fst ` set (timers s). t < Suc (next_timer s)"
    by (auto simp add: less_Suc_eq)
  have "distinct (map fst (timers s'))" using d(1) f(1) by (simp add: assms(4))
  moreover have "\<forall>t \<in> fst ` set (timers s'). t < next_timer s'"
    using b by (simp add: assms(4,5))
  moreover have "\<forall>x \<in> set (timers s'). snd (snd x) = ReconnectFire \<longrightarrow> fst (snd x) = 3000"
    using d(3) assms(6) by (simp add: assms(4))
  moreover have "map_of (timers s') = (map_of (timers s))(next_timer s \<mapsto> (ms, act))"
    unfolding assms(4) by (rule map_of_snoc_fresh [OF f(1)])
  ultimately show ?thesis using assms(2,3) by (simp add: inv_with_def)
qed

lemma gwCall_unready_state:
  assumes "gwSocket s = None \<or> \<not> gwReady s"
  shows "gwCall method args timeoutMs s =
           s\<lparr>next_promise := Suc (next_promise s),
             invoked := invoked s @ [(CallCb (next_promise s), Rejected ''not connected to gateway'')]\<rparr>"
  using assms by (auto simp add: gwCall_def Let_def)

lemma gwCall_ready_state:
  assumes "gwSocket s \<noteq> None" and "gwReady s"
  shows "gwCall method args timeoutMs s =
           s\<lparr>next_promise := Suc (next_promise s),
             gwReqId := js_incr (gwReqId s),
             timers := timers s @ [(next_timer s, (case timeoutMs of None \<Rightarrow> 15000 | Some ms \<Rightarrow> ms),
                          RpcTimeout (rpc_id (js_incr (gwReqId s))) method (next_promise s))],
             next_timer := Suc (next_timer s),
             gwPending := AList.update (rpc_id (js_incr (gwReqId s)))
                            \<lparr>handler = CallCb (next_promise s), timer = next_timer s\<rparr> (gwPending s),
             sent := sent s @ [rpc_frame method (rpc_id (js_incr (gwReqId s))) args]\<rparr>"
  using assms by (auto simp add: gwCall_def Let_def set_timeout_def)

lemma inv_gwCall:
  assumes "inv s"
  shows "inv (gwCall method args timeoutMs s)"
proof (cases "gwSocket s = None \<or> \<not> gwReady s")
  case True
  from assms show ?thesis
    unfolding gwCall_unready_state [OF True]
    by (simp add: inv_def inv_with_def inv_maps_not_ready)
next
  case False
  then have r: "gwSocket s \<noteq> None" "gwReady s" by simp_all
  from assms have w: "inv_with (gwPending s) s" by (simp add: inv_def)
  note f = fresh_timer [OF w]
  from w have d: "distinct (map fst (gwPending s))"
    and m: "inv_maps (map_of (timers s)) (map_of (gwPending s)) (gwReconnectTimer s) (invoked s)
              (next_promise s)"
    by (simp_all add: inv_with_def)
  show ?thesis
    unfolding gwCall_ready_state [OF r] inv_def
    by (rule inv_with_arm [OF w, where ms = "case timeoutMs of None \<Rightarrow> 15000 | Some ms \<Rightarrow> ms"
          and act = "RpcTimeout (rpc_id (js_incr (gwReqId s))) method (next_promise s)"])
       (simp_all add: AList.update_conv' AList.distinct_update d inv_maps_arm_rpc [OF m f(2)])
qed

lemma gwSendConnect_state:
  assumes "gwSendConnect h r nonce s = Inr s'"
  shows "s' = s\<lparr>sent := sent s @ [connect_frame h r],
        timers := timers s @ [(next_timer s, 10000, ConnectTimeout (uuid_id r))],
        next_timer := Suc (next_timer s),
        gwPending := AList.update (uuid_id r) \<lparr>handler = ConnectCb, timer = next_timer s\<rparr> (gwPending s)\<rparr>"
  using assms by (auto simp add: gwSendConnect_def set_timeout_def Let_def split: option.splits)

lemma inv_gwSendConnect:
  assumes "inv s" and "gwSendConnect h r nonce s = Inr s'"
  shows "inv s'"
proof -
  from assms(1) have w: "inv_with (gwPending s) s" by (simp add: inv_def)
  note f = fresh_timer [OF w]
  from w have d: "distinct (map fst (gwPending s))"
    and m: "inv_maps (map_of (timers s)) (map_of (gwPending s)) (gwReconnectTimer s) (invoked s)
              (next_promise s)"
    by (simp_all add: inv_with_def)
  show ?thesis
    unfolding gwSendConnect_state [OF assms(2)] inv_def
    by (rule inv_with_arm [OF w, where ms = 10000 and act = "ConnectTimeout (uuid_id r)"])
       (simp_all add: AList.update_conv' AList.distinct_update d inv_maps_arm_connect [OF m f(2)])
qed

lemma ws_close_state:
  assumes "ws_close code reason s = Inr s'"
  shows "\<exists>rs. gwSocket s = Some rs
           \<and> s' = s\<lparr>gwSocket := Some (if rs = CLOSED then CLOSED else CLOSING),
                    close_calls := close_calls s @ [(code, reason)]\<rparr>"
proof (cases "gwSocket s")
  case None
  with assms show ?thesis by (simp add: ws_close_def)
next
  case (Some rs)
  with assms have "s' = s\<lparr>gwSocket := Some (if rs = CLOSED then CLOSED else CLOSING),
                    close_calls := close_calls s @ [(code, reason)]\<rparr>"
    by (simp add: ws_close_def)
  with Some show ?thesis by blast
qed

lemma inv_ws_close:
  assumes "inv s" and "ws_close code reason s = Inr s'"
  shows "inv s'"
proof -
  from ws_close_state [OF assms(2)] obtain rs where
    s': "s' = s\<lparr>gwSocket := Some (if rs = CLOSED then CLOSED else CLOSING),
                 close_calls := close_calls s @ [(code, reason)]\<rparr>" by blast
  have "inv_with (gwPending s) s' = inv_with (gwPending s) s"
    by (rule inv_with_fields) (simp_all add: s')
  with assms(1) show ?thesis by (simp add: inv_def s')
qed

lemma set_delete_subset: "set (AList.delete k al) \<subseteq> set al"
  by (auto simp add: AList.delete_eq)

lemma inv_with_disarm:
  assumes "inv_with ps s"
      and "inv_maps ((map_of (timers s))(t := None)) (map_of ps')
             (gwReconnectTimer s') (invoked s') (next_promise s')"
      and "distinct (map fst ps')"
      and "timers s' = AList.delete t (timers s)"
      and "next_timer s' = next_timer s"
  shows "inv_with ps' s'"
proof -
  from assms(1) have d: "distinct (map fst (timers s))"
    "\<forall>t \<in> fst ` set (timers s). t < next_timer s"
    "\<forall>x \<in> set (timers s). snd (snd x) = ReconnectFire \<longrightarrow> fst (snd x) = 3000"
    by (simp_all add: inv_with_def)
  have 1: "distinct (map fst (timers s'))"
    unfolding assms(4) by (rule AList.distinct_delete [OF d(1)])
  have 2: "\<forall>t \<in> fst ` set (timers s'). t < next_timer s'"
    unfolding assms(4,5) using d(2) AList.dom_delete_subset [of t "timers s"] by blast
  have 3: "map_of (timers s') = (map_of (timers s))(t := None)"
    unfolding assms(4) by (rule AList.delete_conv')
  have 4: "\<forall>x \<in> set (timers s'). snd (snd x) = ReconnectFire \<longrightarrow> fst (snd x) = 3000"
    unfolding assms(4) using d(3) set_delete_subset [of t "timers s"] by blast
  show ?thesis unfolding inv_with_def 3 using 1 2 4 assms(2,3) by (intro conjI)
qed

lemma inv_with_settle:
  assumes "inv_with ps s" and "map_of ps k = Some p"
  shows "inv_with (AList.delete k ps) (invoke_cb (handler p) out (clear_timeout (timer p) s))"
proof -
  from assms(1) have d: "distinct (map fst ps)"
    and m: "inv_maps (map_of (timers s)) (map_of ps) (gwReconnectTimer s) (invoked s)
              (next_promise s)"
    by (simp_all add: inv_with_def)
  show ?thesis
    by (rule inv_with_disarm [OF assms(1), of "timer p"])
       (simp_all add: AList.distinct_delete [OF d] AList.delete_conv'
          inv_maps_settle [OF m assms(2)])
qed

lemma inv_with_reject_all:
  "inv_with ps s \<Longrightarrow> inv_with [] (reject_all ps s)"
proof (induction ps arbitrary: s)
  case Nil
  then show ?case by simp
next
  case (Cons e ps)
  obtain k p where e: "e = (k, p)" by (cases e)
  from Cons.prems have "distinct (map fst ((k, p) # ps))" by (simp add: inv_with_def e)
  then have "k \<notin> fst ` set ps" by simp
  then have del: "AList.delete k ((k, p) # ps) = ps" by simp
  have m: "map_of ((k, p) # ps) k = Some p" by simp
  from Cons.prems have "inv_with ((k, p) # ps) s" by (simp only: e)
  from inv_with_settle [OF this m, of "Rejected ''connection lost''"]
  have "inv_with ps (invoke_cb (handler p) (Rejected ''connection lost'') (clear_timeout (timer p) s))"
    by (simp only: del)
  from Cons.IH [OF this] show ?case by (simp only: e reject_all.simps)
qed


subsection \<open>What a message does\<close>

lemma not_nullish_prop: "get_prop msg k = JStr x \<Longrightarrow> \<not> nullish msg"
  by (cases msg) simp_all

lemma pending_get_Some:
  "pending_get v m = Some p \<longleftrightarrow> (\<exists>k. v = JStr k \<and> map_of m k = Some p)"
  by (cases v) simp_all

lemma on_message_unparsable: "on_message h r None s = Inr s"
  by (simp add: on_message_def)

lemma on_message_challenge:
  assumes "get_prop msg ''type'' = JStr ''event''"
      and "get_prop msg ''event'' = JStr ''connect.challenge''"
  shows "on_message h r (Some msg) s =
           (if \<not> truthy (opt_prop (get_prop msg ''payload'') ''nonce'')
            then ws_close 1008 ''no nonce'' s
            else gwSendConnect h r (opt_prop (get_prop msg ''payload'') ''nonce'') s)"
  using assms not_nullish_prop [OF assms(1)] by (simp add: on_message_def Let_def)

lemma on_message_matched:
  assumes "get_prop msg ''type'' = JStr ''res''" and "get_prop msg ''id'' = JStr k" and "k \<noteq> []"
      and "map_of (gwPending s) k = Some p"
  shows "on_message h r (Some msg) s =
           Inr (invoke_cb (handler p) (response_outcome msg)
                  (clear_timeout (timer p) (s\<lparr>gwPending := AList.delete k (gwPending s)\<rparr>)))"
  using assms not_nullish_prop [OF assms(1)]
  by (simp add: on_message_def Let_def response_outcome_def)

lemma on_message_unmatched:
  assumes "get_prop msg ''type'' = JStr ''res''"
      and "pending_get (get_prop msg ''id'') (gwPending s) = None"
  shows "on_message h r (Some msg) s = Inr s"
  using assms not_nullish_prop [OF assms(1)] by (simp add: on_message_def Let_def)

lemma on_message_other:
  assumes "\<not> nullish msg" and "get_prop msg ''type'' \<noteq> JStr ''event''"
      and "get_prop msg ''type'' \<noteq> JStr ''res''"
  shows "on_message h r (Some msg) s = Inr s"
  using assms by (simp add: on_message_def Let_def)

lemma on_message_plain_fields:
  assumes "get_prop msg ''type'' = JStr ''event''"
      and "get_prop msg ''event'' \<noteq> JStr ''connect.challenge''"
      and "on_message h r (Some msg) s = Inr s'"
  shows "timers s' = timers s \<and> next_timer s' = next_timer s \<and> gwPending s' = gwPending s
         \<and> gwReconnectTimer s' = gwReconnectTimer s \<and> invoked s' = invoked s
         \<and> next_promise s' = next_promise s \<and> gwSocket s' = gwSocket s \<and> gwReady s' = gwReady s
         \<and> sent s' = sent s \<and> close_calls s' = close_calls s \<and> gwReqId s' = gwReqId s"
  using assms not_nullish_prop [OF assms(1)]
  by (auto simp add: on_message_def Let_def split: if_splits)

lemma on_message_cases:
  assumes "on_message h r data s = Inr s'"
  obtains (same) "s' = s"
    | (close) "ws_close 1008 ''no nonce'' s = Inr s'"
    | (auth) nonce where "gwSendConnect h r nonce s = Inr s'"
    | (event) msg where "data = Some msg" "get_prop msg ''type'' = JStr ''event''"
        "get_prop msg ''event'' \<noteq> JStr ''connect.challenge''"
    | (matched) msg k p where "data = Some msg" "get_prop msg ''type'' = JStr ''res''"
        "get_prop msg ''id'' = JStr k" "map_of (gwPending s) k = Some p"
        "s' = invoke_cb (handler p) (response_outcome msg)
                (clear_timeout (timer p) (s\<lparr>gwPending := AList.delete k (gwPending s)\<rparr>))"
proof (cases data)
  case None
  with assms have "s' = s" by (simp add: on_message_def)
  then show ?thesis by (rule same)
next
  case (Some msg)
  from assms Some have nn: "\<not> nullish msg" by (auto simp add: on_message_def split: if_splits)
  show ?thesis
  proof (cases "get_prop msg ''type'' = JStr ''event''")
    case True
    show ?thesis
    proof (cases "get_prop msg ''event'' = JStr ''connect.challenge''")
      case ch: True
      from assms on_message_challenge [OF True ch, of h r s] Some show ?thesis
        by (cases "truthy (opt_prop (get_prop msg ''payload'') ''nonce'')") (auto intro: close auth)
    next
      case False
      with Some True show ?thesis by (rule event)
    qed
  next
    case ne: False
    show ?thesis
    proof (cases "get_prop msg ''type'' = JStr ''res''")
      case True
      show ?thesis
      proof (cases "pending_get (get_prop msg ''id'') (gwPending s)")
        case None
        from assms on_message_unmatched [OF True None, of h r] Some have "s' = s" by simp
        then show ?thesis by (rule same)
      next
        case (Some p)
        then obtain k where k: "get_prop msg ''id'' = JStr k" "map_of (gwPending s) k = Some p"
          by (auto simp add: pending_get_Some)
        show ?thesis
        proof (cases "k = []")
          case True
          with assms k nn ne \<open>data = Some msg\<close> have "s' = s"
            by (simp add: on_message_def Let_def)
          then show ?thesis by (rule same)
        next
          case False
          from assms on_message_matched [OF True k(1) False k(2), of h r] \<open>data = Some msg\<close>
          have "s' = invoke_cb (handler p) (response_outcome msg)
                (clear_timeout (timer p) (s\<lparr>gwPending := AList.delete k (gwPending s)\<rparr>))"
            by simp
          with \<open>data = Some msg\<close> True k show ?thesis by (rule matched)
        qed
      qed
    next
      case False
      from assms on_message_other [OF nn ne False, of h r s] Some have "s' = s" by simp
      then show ?thesis by (rule same)
    qed
  qed
qed


subsection \<open>Every handler keeps the invariant\<close>

lemma gwConnect_fields [simp]:
  "timers (gwConnect s) = timers s"
  "next_timer (gwConnect s) = next_timer s"
  "gwPending (gwConnect s) = gwPending s"
  "gwReconnectTimer (gwConnect s) = gwReconnectTimer s"
  "invoked (gwConnect s) = invoked s"
  "next_promise (gwConnect s) = next_promise s"
  "sent (gwConnect s) = sent s"
  "close_calls (gwConnect s) = close_calls s"
  "gwReqId (gwConnect s) = gwReqId s"
  by (simp_all add: gwConnect_def)

lemma on_close_armed:
  assumes "gwReconnectTimer s = Some t"
  shows "on_close s =
           (reject_all (gwPending s) (s\<lparr>gwReady := False, gwSocket := None\<rparr>))\<lparr>gwPending := []\<rparr>"
  using assms by (simp add: on_close_def Let_def)

lemma on_close_unarmed:
  assumes "gwReconnectTimer s = None"
  shows "on_close s =
           (reject_all (gwPending s) (s\<lparr>gwReady := False, gwSocket := None\<rparr>))
             \<lparr>gwPending := [],
              timers := timers (reject_all (gwPending s) (s\<lparr>gwReady := False, gwSocket := None\<rparr>))
                          @ [(next_timer s, 3000, ReconnectFire)],
              next_timer := Suc (next_timer s),
              gwReconnectTimer := Some (next_timer s)\<rparr>"
  using assms by (simp add: on_close_def Let_def set_timeout_def)

lemma inv_on_message:
  assumes "inv s" and "on_message h r data s = Inr s'"
  shows "inv s'"
  using assms(2)
proof (cases rule: on_message_cases)
  case same
  with assms(1) show ?thesis by simp
next
  case close
  with assms(1) show ?thesis by (rule inv_ws_close)
next
  case (auth nonce)
  with assms(1) show ?thesis by (rule inv_gwSendConnect)
next
  case (event msg)
  from on_message_plain_fields [OF event(2,3)] assms(2) event(1)
  have f: "timers s' = timers s" "next_timer s' = next_timer s" "gwPending s' = gwPending s"
    "gwReconnectTimer s' = gwReconnectTimer s" "invoked s' = invoked s"
    "next_promise s' = next_promise s"
    by simp_all
  have "inv_with (gwPending s) s' = inv_with (gwPending s) s"
    by (rule inv_with_fields) (simp_all add: f)
  with assms(1) show ?thesis by (simp add: inv_def f(3))
next
  case (matched msg k p)
  let ?s0 = "s\<lparr>gwPending := AList.delete k (gwPending s)\<rparr>"
  have "inv_with (gwPending s) ?s0 = inv_with (gwPending s) s"
    by (rule inv_with_fields) simp_all
  with assms(1) have "inv_with (gwPending s) ?s0" by (simp add: inv_def)
  from inv_with_settle [OF this matched(4), of "response_outcome msg"]
  show ?thesis by (simp add: inv_def matched(5))
qed

lemma inv_on_close:
  assumes "inv s"
  shows "inv (on_close s)"
proof -
  let ?s1 = "s\<lparr>gwReady := False, gwSocket := None\<rparr>"
  let ?s2 = "reject_all (gwPending s) ?s1"
  let ?s3 = "?s2\<lparr>gwPending := []\<rparr>"
  have "inv_with (gwPending s) ?s1 = inv_with (gwPending s) s"
    by (rule inv_with_fields) simp_all
  with assms have "inv_with (gwPending s) ?s1" by (simp add: inv_def)
  then have "inv_with [] ?s2" by (rule inv_with_reject_all)
  moreover have "inv_with [] ?s3 = inv_with [] ?s2"
    by (rule inv_with_fields) simp_all
  ultimately have w3: "inv_with [] ?s3" by simp
  show ?thesis
  proof (cases "gwReconnectTimer s")
    case (Some t)
    from w3 show ?thesis by (simp add: inv_def on_close_armed [OF Some])
  next
    case None
    let ?s5 = "?s2\<lparr>gwPending := [], timers := timers ?s2 @ [(next_timer s, 3000, ReconnectFire)],
                  next_timer := Suc (next_timer s), gwReconnectTimer := Some (next_timer s)\<rparr>"
    from w3 None have m: "inv_maps (map_of (timers ?s3)) (map_of []) None (invoked ?s3)
        (next_promise ?s3)"
      by (simp add: inv_with_def)
    note f = fresh_timer [OF w3]
    have "inv_with [] ?s5"
      by (rule inv_with_arm [OF w3, where ms = 3000 and act = ReconnectFire])
         (simp_all add: inv_maps_arm_reconnect [OF m f(2), simplified])
    then show ?thesis by (simp add: inv_def on_close_unarmed [OF None])
  qed
qed

lemma inv_on_timer:
  assumes "inv s"
  shows "inv (on_timer t s)"
proof (cases "map_of (timers s) t")
  case None
  with assms show ?thesis by (simp add: on_timer_def)
next
  case (Some x)
  obtain ms act where x: "x = (ms, act)" by (cases x)
  from assms have w: "inv_with (gwPending s) s" by (simp add: inv_def)
  from w have d: "distinct (map fst (gwPending s))"
    and m: "inv_maps (map_of (timers s)) (map_of (gwPending s)) (gwReconnectTimer s) (invoked s)
              (next_promise s)"
    by (simp_all add: inv_with_def)
  from Some x have T: "map_of (timers s) t = Some (ms, act)" by simp
  show ?thesis
  proof (cases act)
    case ReconnectFire
    let ?s' = "gwConnect (s\<lparr>timers := AList.delete t (timers s), gwReconnectTimer := None\<rparr>)"
    from T ReconnectFire have ot: "on_timer t s = ?s'" by (simp add: on_timer_def)
    have "inv_with (gwPending s) ?s'"
      by (rule inv_with_disarm [OF w, of t])
         (simp_all add: d inv_maps_remove_reconnect [OF m T [unfolded ReconnectFire]])
    then show ?thesis by (simp add: inv_def ot)
  next
    case (ConnectTimeout k)
    let ?s' = "s\<lparr>timers := AList.delete t (timers s), gwPending := AList.delete k (gwPending s)\<rparr>"
    from T ConnectTimeout have ot: "on_timer t s = ?s'" by (simp add: on_timer_def)
    have "inv_with (AList.delete k (gwPending s)) ?s'"
      by (rule inv_with_disarm [OF w, of t])
         (simp_all add: AList.distinct_delete d AList.delete_conv'
            inv_maps_remove_connect [OF m T [unfolded ConnectTimeout]])
    then show ?thesis by (simp add: inv_def ot)
  next
    case (RpcTimeout k m q)
    let ?s' = "invoke_cb (CallCb q) (Rejected (''RPC timeout: '' @ js_to_string m))
                 (s\<lparr>timers := AList.delete t (timers s), gwPending := AList.delete k (gwPending s)\<rparr>)"
    from T RpcTimeout have ot: "on_timer t s = ?s'" by (simp add: on_timer_def)
    have "inv_with (AList.delete k (gwPending s)) ?s'"
      by (rule inv_with_disarm [OF w, of t])
         (simp_all add: AList.distinct_delete d AList.delete_conv'
            inv_maps_remove_rpc [OF m T [unfolded RpcTimeout]])
    then show ?thesis by (simp add: inv_def ot)
  qed
qed

lemma inv_step:
  assumes "inv s" and "step h s e = Inr s'"
  shows "inv s'"
proof -
  obtain r ev where e: "e = (r, ev)" by (cases e)
  show ?thesis
    using assms unfolding e
    by (cases ev)
       (auto simp add: inv_gwConnect inv_on_open inv_on_close inv_on_timer inv_gwCall
          intro: inv_on_message)
qed

lemma inv_run:
  assumes "run h (init_state t0) es = Inr s"
  shows "inv s"
  by (rule run_induct [OF assms, where P = inv]) (simp_all add: inv_init inv_step)




section \<open>The example runs\<close>

lemma run_append:
  "run h s (es @ es') = (case run h s es of Inl err \<Rightarrow> Inl err | Inr s' \<Rightarrow> run h s' es')"
  by (induction es arbitrary: s) (auto split: sum.splits)

lemma rpc_id_small: "rpc_id (Suc 0) = ''rpc-1''" "rpc_id 2 = ''rpc-2''"
  by (simp_all add: rpc_id_def string_of_nat.simps digit_chars_def)

lemma js_incr_small: "js_incr 0 = Suc 0" "js_incr (Suc 0) = 2"
  by (simp_all add: js_incr_def)

lemma handshake_reaches_ready: "run example_host (init_state 0) handshake_run = Inr ready_state"
  by (simp add: handshake_run_def ready_state_def init_state_def gwConnect_def on_open_def
        on_message_def challenge_event_def auth_accepted_def example_inputs_def opt_prop_def
        gwSendConnect_def set_timeout_def clear_timeout_def js_or_def Let_def connect_frame_def)

lemma two_calls_reached: "run example_host (init_state 0) two_calls_run = Inr two_calls_state"
  by (simp add: two_calls_run_def run_append handshake_reaches_ready)
     (simp add: ready_state_def two_calls_state_def gwCall_def set_timeout_def js_or_def Let_def
        rpc_id_small js_incr_small rpc_frame_def)


section \<open>What the close handler does\<close>

lemma invoked_reject_all:
  "invoked (reject_all ps s) =
     invoked s @ map (\<lambda>(k, p). (handler p, Rejected ''connection lost'')) ps"
  by (induction ps s rule: reject_all.induct) simp_all

lemma timers_reject_all:
  "map_of (timers (reject_all ps s)) t =
     (if t \<in> (\<lambda>(k, p). timer p) ` set ps then None else map_of (timers s) t)"
  by (induction ps s rule: reject_all.induct) (auto simp add: AList.delete_conv')

lemma invoked_on_close:
  "invoked (on_close s) =
     invoked s @ map (\<lambda>(k, p). (handler p, Rejected ''connection lost'')) (gwPending s)"
  by (cases "gwReconnectTimer s") (simp_all add: on_close_armed on_close_unarmed invoked_reject_all)

lemma gwPending_on_close: "gwPending (on_close s) = []"
  by (cases "gwReconnectTimer s") (simp_all add: on_close_armed on_close_unarmed)

lemma pending_timer_armed:
  assumes "inv s" and "(k, p) \<in> set (gwPending s)"
  shows "\<exists>ms act. map_of (timers s) (timer p) = Some (ms, act) \<and> guards k (handler p) act"
    and "timer p < next_timer s"
proof -
  from assms(1) have d: "distinct (map fst (gwPending s))"
    and b: "\<forall>t \<in> fst ` set (timers s). t < next_timer s"
    and g: "pending_guarded (map_of (timers s)) (map_of (gwPending s))"
    by (simp_all add: inv_def inv_with_def inv_maps_def)
  from d assms(2) have "map_of (gwPending s) k = Some p" by simp
  with g show e: "\<exists>ms act. map_of (timers s) (timer p) = Some (ms, act) \<and> guards k (handler p) act"
    unfolding pending_guarded_def by blast
  then obtain x where "map_of (timers s) (timer p) = Some x" by blast
  then have "(timer p, x) \<in> set (timers s)" by (rule map_of_SomeD)
  then have "timer p \<in> fst ` set (timers s)" by force
  with b show "timer p < next_timer s" by blast
qed

lemma timers_on_close_cleared:
  assumes "(k, p) \<in> set (gwPending s)" and "timer p < next_timer s"
  shows "map_of (timers (on_close s)) (timer p) = None"
proof -
  from assms(1) have i: "timer p \<in> (\<lambda>(k, p). timer p) ` set (gwPending s)" by force
  show ?thesis
  proof (cases "gwReconnectTimer s")
    case (Some t)
    with i show ?thesis by (simp add: on_close_armed timers_reject_all)
  next
    case None
    with i assms(2) show ?thesis
      by (simp add: on_close_unarmed timers_reject_all map_add_def)
  qed
qed

section \<open>The reconnect timer in reachable states\<close>

lemma distinct_singleton_set:
  assumes "distinct xs" and "set xs = {x}"
  shows "xs = [x]"
proof (cases xs)
  case Nil
  with assms(2) show ?thesis by simp
next
  case (Cons y ys)
  with assms have y: "y = x" and "set ys \<subseteq> {x}" and "y \<notin> set ys" by auto
  then have "ys = []" by (cases ys) auto
  with y Cons show ?thesis by simp
qed

lemma reconnect_timers_inv:
  assumes "inv s"
  shows "reconnect_timers s =
           (case gwReconnectTimer s of None \<Rightarrow> [] | Some t \<Rightarrow> [(t, 3000, ReconnectFire)])"
proof -
  from assms have d: "distinct (map fst (timers s))"
    and three: "\<forall>x \<in> set (timers s). snd (snd x) = ReconnectFire \<longrightarrow> fst (snd x) = 3000"
    and ro: "reconnect_ok (map_of (timers s)) (gwReconnectTimer s)"
    by (simp_all add: inv_def inv_with_def inv_maps_def)
  have elem: "x = (t, 3000, ReconnectFire) \<and> gwReconnectTimer s = Some t"
    if "x \<in> set (reconnect_timers s)" and "t = fst x" for x t
  proof -
    from that(1) have x: "x \<in> set (timers s)" "snd (snd x) = ReconnectFire"
      by (simp_all add: reconnect_timers_def)
    with three have "fst (snd x) = 3000" by blast
    with x(2) that(2) have eq: "x = (t, 3000, ReconnectFire)" by (cases x) auto
    with x(1) d have "map_of (timers s) t = Some (3000, ReconnectFire)" by simp
    with ro have "gwReconnectTimer s = Some t" by (rule reconnect_okD1)
    with eq show ?thesis by simp
  qed
  show ?thesis
  proof (cases "gwReconnectTimer s")
    case None
    have "reconnect_timers s = []"
    proof (cases "reconnect_timers s")
      case (Cons x xs)
      then have "x \<in> set (reconnect_timers s)" by simp
      from elem [OF this refl] None show ?thesis by simp
    qed simp
    with None show ?thesis by simp
  next
    case (Some t)
    from reconnect_okD2 [OF ro Some] obtain ms where "map_of (timers s) t = Some (ms, ReconnectFire)"
      by blast
    then have m: "(t, ms, ReconnectFire) \<in> set (timers s)" by (rule map_of_SomeD)
    with three have "ms = 3000" by force
    with m have "(t, 3000, ReconnectFire) \<in> set (reconnect_timers s)"
      by (simp add: reconnect_timers_def)
    moreover have "x = (t, 3000, ReconnectFire)" if "x \<in> set (reconnect_timers s)" for x
      using elem [OF that refl] Some by auto
    ultimately have "set (reconnect_timers s) = {(t, 3000, ReconnectFire)}" by blast
    moreover from d have "distinct (reconnect_timers s)"
      by (simp add: reconnect_timers_def distinct_map)
    ultimately have "reconnect_timers s = [(t, 3000, ReconnectFire)]"
      by (rule distinct_singleton_set [rotated])
    with Some show ?thesis by simp
  qed
qed

lemma gwReconnectTimer_on_close:
  "gwReconnectTimer (on_close s) =
     (case gwReconnectTimer s of None \<Rightarrow> Some (next_timer s) | Some t \<Rightarrow> Some t)"
  by (cases "gwReconnectTimer s") (simp_all add: on_close_armed on_close_unarmed)

lemma reconnect_timers_on_close:
  assumes "inv s"
  shows "reconnect_timers (on_close s) =
           (case gwReconnectTimer s of None \<Rightarrow> [(next_timer s, 3000, ReconnectFire)]
            | Some t \<Rightarrow> [(t, 3000, ReconnectFire)])"
  using reconnect_timers_inv [OF inv_on_close [OF assms]]
  by (simp add: gwReconnectTimer_on_close split: option.splits)

lemma on_timer_reconnect:
  assumes "inv s" and "gwReconnectTimer s = Some t"
  shows "on_timer t s = gwConnect (s\<lparr>timers := AList.delete t (timers s), gwReconnectTimer := None\<rparr>)"
proof -
  from assms(1) have ro: "reconnect_ok (map_of (timers s)) (gwReconnectTimer s)"
    by (simp add: inv_def inv_with_def inv_maps_def)
  from reconnect_okD2 [OF ro assms(2)] obtain ms where "map_of (timers s) t = Some (ms, ReconnectFire)"
    by blast
  then show ?thesis by (simp add: on_timer_def)
qed

section \<open>How promises get settled\<close>









section \<open>Call ids are not reused\<close>










lemma gwReqId_on_timer [simp]: "gwReqId (on_timer t s) = gwReqId s"
  by (simp add: on_timer_def Let_def split: option.splits timer_action.splits)

section \<open>Every call is settled once\<close>



section \<open>Teardown\<close>

text \<open>
  Claim C2. In every state reached from the initial one, the \<^verbatim>\<open>close\<close> handler leaves the
  pending map empty, calls the \<^verbatim>\<open>reject\<close> function of every entry that was in the map, in
  map order, with the error "connection lost" (and calls nothing else), and disarms the timer
  of every such entry: each of these timers was armed before the handler ran and is not armed
  after it, whatever its delay.
\<close>

theorem close_rejects_every_pending_call:
  assumes "run h (init_state t0) es = Inr s"
  shows "gwPending (on_close s) = []
         \<and> invoked (on_close s) =
             invoked s @ map (\<lambda>(k, p). (handler p, Rejected ''connection lost'')) (gwPending s)
         \<and> (\<forall>(k, p) \<in> set (gwPending s).
               map_of (timers s) (timer p) \<noteq> None
               \<and> map_of (timers (on_close s)) (timer p) = None)"
proof -
  from assms have i: "inv s" by (rule inv_run)
  have "map_of (timers s) (timer p) \<noteq> None \<and> map_of (timers (on_close s)) (timer p) = None"
    if "(k, p) \<in> set (gwPending s)" for k p
    using pending_timer_armed [OF i that] timers_on_close_cleared [OF that] by auto
  then show ?thesis by (auto simp add: gwPending_on_close invoked_on_close)
qed

theorem close_rejects_every_pending_call_witness:
  "run example_host (init_state 0) two_calls_run = Inr two_calls_state
   \<and> gwPending (on_close two_calls_state) = []
   \<and> invoked (on_close two_calls_state) =
        invoked two_calls_state @
          [(CallCb 0, Rejected ''connection lost''), (CallCb 1, Rejected ''connection lost'')]
   \<and> map_of (timers two_calls_state) 1 \<noteq> None \<and> map_of (timers (on_close two_calls_state)) 1 = None
   \<and> map_of (timers two_calls_state) 2 \<noteq> None \<and> map_of (timers (on_close two_calls_state)) 2 = None"
  using close_rejects_every_pending_call [OF two_calls_reached] two_calls_reached
  by (simp add: two_calls_state_def)

section \<open>Calls while not connected\<close>

text \<open>
  Claim C3. When \<^verbatim>\<open>gwCall\<close> runs while \<^verbatim>\<open>gwSocket\<close> is \<^verbatim>\<open>null\<close> or \<^verbatim>\<open>gwReady\<close> is false, the
  promise is rejected at once with "not connected to gateway", and nothing else happens: the
  resulting state differs from the old one only in the promise counter and the recorded
  rejection, so the pending map, the armed timers and the sent frames are unchanged.
\<close>

theorem gwCall_not_ready:
  assumes "gwSocket s = None \<or> \<not> gwReady s"
  shows "gwCall method args timeoutMs s =
           s\<lparr>next_promise := Suc (next_promise s),
             invoked := invoked s @ [(CallCb (next_promise s), Rejected ''not connected to gateway'')]\<rparr>
         \<and> gwPending (gwCall method args timeoutMs s) = gwPending s
         \<and> timers (gwCall method args timeoutMs s) = timers s
         \<and> sent (gwCall method args timeoutMs s) = sent s"
  using assms by (auto simp add: gwCall_def Let_def)

theorem gwCall_not_ready_witness:
  "gwSocket (init_state 0) = None
   \<and> invoked (gwCall (JStr ''status.get'') (JObj []) None (init_state 0)) =
       [(CallCb 0, Rejected ''not connected to gateway'')]
   \<and> gwPending (gwCall (JStr ''status.get'') (JObj []) None (init_state 0)) = []"
  using gwCall_not_ready [of "init_state 0" "JStr ''status.get''" "JObj []" None]
  by (simp add: init_state_def)

section \<open>Timeouts\<close>



section \<open>Responses\<close>



section \<open>Handshake faults\<close>




section \<open>The event buffer\<close>

text \<open>
  Claim C7. In every state reached from the initial one the event buffer holds at most 50
  entries, and it still does after the next inbound message. When the buffer holds exactly 50
  entries and an event other than the challenge arrives, the new buffer is the old one
  without its first entry, followed by the new record: entries 2 to 50 keep their order and
  the new one is last.
\<close>

theorem event_buffer_fifo:
  assumes "run h (init_state t0) es = Inr s"
      and "on_message h r data s = Inr s'"
  shows "length (gwEvents s) \<le> 50 \<and> length (gwEvents s') \<le> 50
         \<and> (length (gwEvents s) = 50 \<longrightarrow>
              (\<forall>msg. data = Some msg \<longrightarrow> get_prop msg ''type'' = JStr ''event'' \<longrightarrow>
                 get_prop msg ''event'' \<noteq> JStr ''connect.challenge'' \<longrightarrow>
                 gwEvents s' = tl (gwEvents s) @ [event_record (now r) msg]))"
proof -
  have b: "length (gwEvents s) \<le> 50" by (rule run_events_bounded [OF assms(1)])
  have b': "length (gwEvents s') \<le> 50" by (rule on_message_events_bounded [OF b assms(2)])
  have "gwEvents s' = tl (gwEvents s) @ [event_record (now r) msg]"
    if "length (gwEvents s) = 50" "data = Some msg" "get_prop msg ''type'' = JStr ''event''"
       "get_prop msg ''event'' \<noteq> JStr ''connect.challenge''" for msg
  proof -
    from that(1) have "gwEvents s \<noteq> []" by auto
    with on_message_plain_event [OF that(3,4)] assms(2) that(1,2) show ?thesis by simp
  qed
  with b b' show ?thesis by blast
qed

theorem event_buffer_fifo_witness:
  "run example_host (init_state 0)
       (replicate 50 (example_inputs 1000, WsMessage (Some tick_event))) = Inr full_buffer_state
   \<and> on_message example_host (example_inputs 2000) (Some timed_event) full_buffer_state =
       Inr (full_buffer_state\<lparr>gwEvents :=
              replicate 49 (event_record 1000 tick_event) @ [event_record 2000 timed_event]\<rparr>)
   \<and> length (gwEvents full_buffer_state) = 50
   \<and> length (replicate 49 (event_record 1000 tick_event) @ [event_record 2000 timed_event]) \<le> 50"
proof -
  have r: "run example_host (init_state 0)
       (replicate 50 (example_inputs 1000, WsMessage (Some tick_event))) = Inr full_buffer_state"
    by (subst run_replicate_events)
       (simp_all add: tick_event_def full_buffer_state_def init_state_def example_inputs_def)
  obtain s' where m: "on_message example_host (example_inputs 2000) (Some timed_event) full_buffer_state = Inr s'"
    by (simp add: on_message_def timed_event_def Let_def)
  have rest: "s' = full_buffer_state\<lparr>gwEvents := gwEvents s'\<rparr>"
    using m by (auto simp add: on_message_def timed_event_def Let_def full_buffer_state_def split: if_splits)
  from event_buffer_fifo [OF r m]
  have "gwEvents s' = replicate 49 (event_record 1000 tick_event) @ [event_record 2000 timed_event]"
    and "length (gwEvents s') \<le> 50"
    by (simp_all add: full_buffer_state_def timed_event_def example_inputs_def)
  with r m rest show ?thesis
    by (simp add: full_buffer_state_def)
qed

section \<open>The reconnect scheduler\<close>

text \<open>
  Claim C8. In every state reached from the initial one the armed reconnect timers are exactly
  the one recorded in \<^verbatim>\<open>gwReconnectTimer\<close>, with delay 3000 ms, or none when that variable
  is \<^verbatim>\<open>null\<close>: there is never more than one. The \<^verbatim>\<open>close\<close> handler arms nothing when one is
  armed already, and arms one timer of 3000 ms otherwise, so after it exactly one is armed,
  and a second \<^verbatim>\<open>close\<close> changes nothing, however many callbacks the first one ran. When the
  timer fires, \<^verbatim>\<open>gwReconnectTimer\<close> is set to \<^verbatim>\<open>null\<close> first and \<^verbatim>\<open>gwConnect\<close> runs on that
  state; no reconnect timer is armed then, and a later \<^verbatim>\<open>close\<close> arms a new one.
\<close>

theorem single_reconnect_timer:
  assumes "run h (init_state t0) es = Inr s"
  shows "reconnect_timers s =
           (case gwReconnectTimer s of None \<Rightarrow> [] | Some t \<Rightarrow> [(t, 3000, ReconnectFire)])
         \<and> length (reconnect_timers s) \<le> 1
         \<and> (gwReconnectTimer s \<noteq> None \<longrightarrow>
               gwReconnectTimer (on_close s) = gwReconnectTimer s
               \<and> reconnect_timers (on_close s) = reconnect_timers s
               \<and> next_timer (on_close s) = next_timer s)
         \<and> (gwReconnectTimer s = None \<longrightarrow>
               gwReconnectTimer (on_close s) = Some (next_timer s)
               \<and> reconnect_timers (on_close s) = [(next_timer s, 3000, ReconnectFire)])
         \<and> length (reconnect_timers (on_close s)) = 1
         \<and> reconnect_timers (on_close (on_close s)) = reconnect_timers (on_close s)
         \<and> (\<forall>t. gwReconnectTimer s = Some t \<longrightarrow>
               on_timer t s =
                 gwConnect (s\<lparr>timers := AList.delete t (timers s), gwReconnectTimer := None\<rparr>)
               \<and> gwReconnectTimer (on_timer t s) = None
               \<and> reconnect_timers (on_timer t s) = []
               \<and> reconnect_timers (on_close (on_timer t s)) = [(next_timer s, 3000, ReconnectFire)])"
proof -
  from assms have i: "inv s" by (rule inv_run)
  note rt = reconnect_timers_inv [OF i]
  note rc = reconnect_timers_on_close [OF i]
  have 1: "length (reconnect_timers s) \<le> 1" by (simp add: rt split: option.splits)
  have 2: "gwReconnectTimer s \<noteq> None \<longrightarrow>
               gwReconnectTimer (on_close s) = gwReconnectTimer s
               \<and> reconnect_timers (on_close s) = reconnect_timers s
               \<and> next_timer (on_close s) = next_timer s"
    by (auto simp add: rt rc gwReconnectTimer_on_close on_close_armed)
  have 3: "gwReconnectTimer s = None \<longrightarrow>
               gwReconnectTimer (on_close s) = Some (next_timer s)
               \<and> reconnect_timers (on_close s) = [(next_timer s, 3000, ReconnectFire)]"
    by (simp add: rc gwReconnectTimer_on_close)
  have 4: "length (reconnect_timers (on_close s)) = 1" by (simp add: rc split: option.splits)
  have 5: "reconnect_timers (on_close (on_close s)) = reconnect_timers (on_close s)"
    using reconnect_timers_on_close [OF inv_on_close [OF i]]
    by (simp add: rc gwReconnectTimer_on_close split: option.splits)
  have 6: "on_timer t s =
                 gwConnect (s\<lparr>timers := AList.delete t (timers s), gwReconnectTimer := None\<rparr>)
               \<and> gwReconnectTimer (on_timer t s) = None
               \<and> reconnect_timers (on_timer t s) = []
               \<and> reconnect_timers (on_close (on_timer t s)) = [(next_timer s, 3000, ReconnectFire)]"
    if "gwReconnectTimer s = Some t" for t
  proof -
    note ot = on_timer_reconnect [OF i that]
    have f: "gwReconnectTimer (on_timer t s) = None" "next_timer (on_timer t s) = next_timer s"
      by (simp_all add: ot)
    from reconnect_timers_inv [OF inv_on_timer [OF i], of t] f(1)
    have "reconnect_timers (on_timer t s) = []" by simp
    moreover from reconnect_timers_on_close [OF inv_on_timer [OF i], of t] f
    have "reconnect_timers (on_close (on_timer t s)) = [(next_timer s, 3000, ReconnectFire)]" by simp
    ultimately show ?thesis using ot f(1) by simp
  qed
  from rt 1 2 3 4 5 6 show ?thesis by blast
qed

theorem single_reconnect_timer_witness:
  "run example_host (init_state 0) two_calls_run = Inr two_calls_state
   \<and> gwReconnectTimer two_calls_state = None
   \<and> reconnect_timers two_calls_state = []
   \<and> reconnect_timers (on_close two_calls_state) = [(3, 3000, ReconnectFire)]
   \<and> reconnect_timers (on_close (on_close two_calls_state)) = [(3, 3000, ReconnectFire)]
   \<and> gwReconnectTimer (on_close two_calls_state) = Some 3
   \<and> gwReconnectTimer (on_timer 3 (on_close two_calls_state)) = None
   \<and> reconnect_timers (on_timer 3 (on_close two_calls_state)) = []
   \<and> reconnect_timers (on_close (on_timer 3 (on_close two_calls_state))) = [(4, 3000, ReconnectFire)]"
proof -
  have c: "run example_host (init_state 0) (two_calls_run @ [(example_inputs 40, WsClose)])
             = Inr (on_close two_calls_state)"
    by (simp add: run_append two_calls_reached)
  have f: "gwReconnectTimer two_calls_state = None" "next_timer two_calls_state = 3"
    by (simp_all add: two_calls_state_def ready_state_def)
  from single_reconnect_timer [OF two_calls_reached] f
  have 1: "reconnect_timers two_calls_state = []"
    "reconnect_timers (on_close two_calls_state) = [(3, 3000, ReconnectFire)]"
    "reconnect_timers (on_close (on_close two_calls_state)) = [(3, 3000, ReconnectFire)]"
    "gwReconnectTimer (on_close two_calls_state) = Some 3"
    by simp_all
  have n: "next_timer (on_close two_calls_state) = 4"
    by (simp add: on_close_unarmed f)
  from single_reconnect_timer [OF c]
  have "\<forall>t. gwReconnectTimer (on_close two_calls_state) = Some t \<longrightarrow>
          gwReconnectTimer (on_timer t (on_close two_calls_state)) = None
          \<and> reconnect_timers (on_timer t (on_close two_calls_state)) = []
          \<and> reconnect_timers (on_close (on_timer t (on_close two_calls_state))) =
              [(next_timer (on_close two_calls_state), 3000, ReconnectFire)]"
    by blast
  with 1(4) have "gwReconnectTimer (on_timer 3 (on_close two_calls_state)) = None
          \<and> reconnect_timers (on_timer 3 (on_close two_calls_state)) = []
          \<and> reconnect_timers (on_close (on_timer 3 (on_close two_calls_state))) =
              [(next_timer (on_close two_calls_state), 3000, ReconnectFire)]"
    by blast
  then have 2: "gwReconnectTimer (on_timer 3 (on_close two_calls_state)) = None"
    "reconnect_timers (on_timer 3 (on_close two_calls_state)) = []"
    "reconnect_timers (on_close (on_timer 3 (on_close two_calls_state))) = [(4, 3000, ReconnectFire)]"
    by (simp_all add: n)
  from two_calls_reached f(1) 1 2 show ?thesis by simp
qed

section \<open>What the routes deliver\<close>

text \<open>
  Claim C9, as the code has it. For a response that is not \<^verbatim>\<open>ok: false\<close> the value given
  to the caller's \<^verbatim>\<open>resolve\<close> is \<^verbatim>\<open>msg.payload\<close> when that is truthy, else \<^verbatim>\<open>msg.result\<close>
  when that is truthy, else the whole response frame, and the \<^verbatim>\<open>/rpc\<close> route answers 200
  with that value unchanged; in the last case the value's \<^verbatim>\<open>id\<close> property is the request's
  correlation id. A failure is answered with 502 and \<^verbatim>\<open>{ error, method }\<close>. The snapshot
  route answers the stored snapshot (or \<^verbatim>\<open>{ error: 'no snapshot yet' }\<close>), the events route
  the buffered records, and the health route reports \<^verbatim>\<open>gwReady\<close> as \<^verbatim>\<open>gatewayConnected\<close>.
\<close>

theorem delivered_values:
  "(get_prop msg ''type'' = JStr ''res'' \<longrightarrow> get_prop msg ''id'' = JStr k \<longrightarrow> k \<noteq> [] \<longrightarrow>
      map_of (gwPending s) k = Some p \<longrightarrow> get_prop msg ''ok'' \<noteq> JBool False \<longrightarrow>
      (\<exists>s' v. on_message h r (Some msg) s = Inr s'
         \<and> invoked s' = invoked s @ [(handler p, Resolved v)]
         \<and> v = (if truthy (get_prop msg ''payload'') then get_prop msg ''payload''
                else if truthy (get_prop msg ''result'') then get_prop msg ''result'' else msg)
         \<and> rpc_reply rpcMethod (Resolved v) = (200, v)
         \<and> (\<not> truthy (get_prop msg ''payload'') \<longrightarrow> \<not> truthy (get_prop msg ''result'') \<longrightarrow>
               get_prop v ''id'' = JStr k)))
   \<and> rpc_reply rpcMethod (Rejected e) = (502, JObj [(''error'', JStr e), (''method'', rpcMethod)])
   \<and> snapshot_reply s =
       (200, if truthy (gwSnapshot s) then gwSnapshot s
             else JObj [(''error'', JStr ''no snapshot yet'')])
   \<and> events_reply s = (200, JObj [(''events'', JArr (gwEvents s))])
   \<and> get_prop (snd (health_reply h t isoTime s)) ''gatewayConnected'' = JBool (gwReady s)"
proof -
  have 1: "\<exists>s' v. on_message h r (Some msg) s = Inr s'
         \<and> invoked s' = invoked s @ [(handler p, Resolved v)]
         \<and> v = (if truthy (get_prop msg ''payload'') then get_prop msg ''payload''
                else if truthy (get_prop msg ''result'') then get_prop msg ''result'' else msg)
         \<and> rpc_reply rpcMethod (Resolved v) = (200, v)
         \<and> (\<not> truthy (get_prop msg ''payload'') \<longrightarrow> \<not> truthy (get_prop msg ''result'') \<longrightarrow>
               get_prop v ''id'' = JStr k)"
    if a: "get_prop msg ''type'' = JStr ''res''" "get_prop msg ''id'' = JStr k" "k \<noteq> []"
      "map_of (gwPending s) k = Some p" "get_prop msg ''ok'' \<noteq> JBool False"
  proof -
    from a(5) have "response_outcome msg =
        Resolved (if truthy (get_prop msg ''payload'') then get_prop msg ''payload''
                else if truthy (get_prop msg ''result'') then get_prop msg ''result'' else msg)"
      by (simp add: response_outcome_def js_or_def)
    with on_message_matched [OF a(1-4), of h r] a(2) show ?thesis
      by (simp add: rpc_reply_def)
  qed
  have 2: "rpc_reply rpcMethod (Rejected e) = (502, JObj [(''error'', JStr e), (''method'', rpcMethod)])"
    by (simp add: rpc_reply_def)
  have 3: "snapshot_reply s =
       (200, if truthy (gwSnapshot s) then gwSnapshot s
             else JObj [(''error'', JStr ''no snapshot yet'')])"
    by (simp add: snapshot_reply_def js_or_def)
  have 4: "events_reply s = (200, JObj [(''events'', JArr (gwEvents s))])"
    by (simp add: events_reply_def)
  have 5: "get_prop (snd (health_reply h t isoTime s)) ''gatewayConnected'' = JBool (gwReady s)"
    by (simp add: health_reply_def)
  from 1 2 3 4 5 show ?thesis by blast
qed

theorem delivered_values_witness:
  "(\<exists>s'. on_message example_host (example_inputs 20) (Some sessions_response) two_calls_state = Inr s'
       \<and> invoked s' = invoked two_calls_state @ [(CallCb 1, Resolved (JObj [(''sessions'', JArr [])]))])
   \<and> rpc_reply (JStr ''sessions.list'') (Resolved (JObj [(''sessions'', JArr [])]))
       = (200, JObj [(''sessions'', JArr [])])
   \<and> (\<exists>s'. on_message example_host (example_inputs 50) (Some bare_ok_response) two_calls_state = Inr s'
       \<and> invoked s' = invoked two_calls_state @ [(CallCb 0, Resolved bare_ok_response)])
   \<and> get_prop bare_ok_response ''id'' = JStr ''rpc-1''"
proof -
  have a: "get_prop sessions_response ''type'' = JStr ''res''"
    "get_prop sessions_response ''id'' = JStr ''rpc-2''" "''rpc-2'' \<noteq> []"
    "map_of (gwPending two_calls_state) ''rpc-2'' = Some \<lparr>handler = CallCb 1, timer = 2\<rparr>"
    "get_prop sessions_response ''ok'' \<noteq> JBool False"
    "truthy (get_prop sessions_response ''payload'')"
    "get_prop sessions_response ''payload'' = JObj [(''sessions'', JArr [])]"
    by (simp_all add: sessions_response_def two_calls_state_def)
  have b: "get_prop bare_ok_response ''type'' = JStr ''res''"
    "get_prop bare_ok_response ''id'' = JStr ''rpc-1''" "''rpc-1'' \<noteq> []"
    "map_of (gwPending two_calls_state) ''rpc-1'' = Some \<lparr>handler = CallCb 0, timer = 1\<rparr>"
    "get_prop bare_ok_response ''ok'' \<noteq> JBool False"
    "\<not> truthy (get_prop bare_ok_response ''payload'')"
    "\<not> truthy (get_prop bare_ok_response ''result'')"
    by (simp_all add: bare_ok_response_def two_calls_state_def)
  from delivered_values [of sessions_response "''rpc-2''" two_calls_state
      "\<lparr>handler = CallCb 1, timer = 2\<rparr>" example_host "example_inputs 20" "JStr ''sessions.list''"
      "''x''" 0 "''x''"] a
  have 1: "\<exists>s'. on_message example_host (example_inputs 20) (Some sessions_response) two_calls_state = Inr s'
       \<and> invoked s' = invoked two_calls_state @ [(CallCb 1, Resolved (JObj [(''sessions'', JArr [])]))]"
    "rpc_reply (JStr ''sessions.list'') (Resolved (JObj [(''sessions'', JArr [])]))
       = (200, JObj [(''sessions'', JArr [])])"
    by auto
  from delivered_values [of bare_ok_response "''rpc-1''" two_calls_state
      "\<lparr>handler = CallCb 0, timer = 1\<rparr>" example_host "example_inputs 50" "JStr ''status.get''"
      "''x''" 0 "''x''"] b
  have 2: "\<exists>s'. on_message example_host (example_inputs 50) (Some bare_ok_response) two_calls_state = Inr s'
       \<and> invoked s' = invoked two_calls_state @ [(CallCb 0, Resolved bare_ok_response)]"
    by auto
  from 1 2 b(2) show ?thesis by blast
qed

text \<open>
  The run that shows it: the call \<^verbatim>\<open>status.get\<close> is sent with id \<^verbatim>\<open>rpc-1\<close>; the response
  \<^verbatim>\<open>{ type: 'res', id: 'rpc-1', ok: true }\<close> has neither payload nor result, so the caller
  and the HTTP client receive the frame itself, \<^verbatim>\<open>id\<close> included.
\<close>

theorem success_value_exposes_id:
  "run example_host (init_state 0)
     (two_calls_run @ [(example_inputs 50, WsMessage (Some bare_ok_response))]) = Inr bare_reply_state
   \<and> sent bare_reply_state ! 1 = rpc_frame (JStr ''status.get'') ''rpc-1'' (JObj [])
   \<and> get_prop (sent bare_reply_state ! 1) ''id'' = JStr ''rpc-1''
   \<and> last (invoked bare_reply_state) = (CallCb 0, Resolved bare_ok_response)
   \<and> rpc_reply (JStr ''status.get'') (Resolved bare_ok_response) = (200, bare_ok_response)
   \<and> get_prop (snd (rpc_reply (JStr ''status.get'') (Resolved bare_ok_response))) ''id'' = JStr ''rpc-1''"
proof -
  have "run example_host (init_state 0)
     (two_calls_run @ [(example_inputs 50, WsMessage (Some bare_ok_response))]) = Inr bare_reply_state"
    by (simp add: run_append two_calls_reached)
       (simp add: on_message_def bare_ok_response_def bare_reply_state_def two_calls_state_def
          ready_state_def clear_timeout_def js_or_def Let_def)
  then show ?thesis
    by (simp add: bare_reply_state_def two_calls_state_def ready_state_def rpc_reply_def
          rpc_frame_def bare_ok_response_def)
qed

section \<open>The time field of a buffered event\<close>

text \<open>
  Claim C10. An event frame other than the challenge is stored as
  \<^verbatim>\<open>{ time: Date.now(), ...msg }\<close>. The \<^verbatim>\<open>time\<close> property of the stored record is the
  local timestamp when the frame has no \<^verbatim>\<open>time\<close> property, and the frame's own value when
  it has one.
\<close>

theorem event_time_field:
  assumes "get_prop (JObj kvs) ''type'' = JStr ''event''"
      and "get_prop (JObj kvs) ''event'' \<noteq> JStr ''connect.challenge''"
      and "distinct (map fst kvs)"
  shows "\<exists>s'. on_message h r (Some (JObj kvs)) s = Inr s' \<and> gwEvents s' \<noteq> []
           \<and> last (gwEvents s') = event_record (now r) (JObj kvs)
           \<and> get_prop (last (gwEvents s')) ''time'' =
               (case map_of kvs ''time'' of None \<Rightarrow> JNum (now r) | Some v \<Rightarrow> v)"
proof -
  obtain s' where s': "on_message h r (Some (JObj kvs)) s = Inr s'"
    using assms(1,2) by (auto simp add: on_message_def Let_def)
  from on_message_plain_event [OF assms(1,2) s']
  have "gwEvents s' \<noteq> [] \<and> last (gwEvents s') = event_record (now r) (JObj kvs)"
    by (cases "gwEvents s") auto
  with s' event_record_time [OF assms(3), of "now r"] show ?thesis by auto
qed

theorem event_time_field_witness:
  "(\<exists>s'. on_message example_host (example_inputs 1000) (Some timed_event) (init_state 0) = Inr s'
         \<and> get_prop (last (gwEvents s')) ''time'' = JNum 7)
   \<and> (\<exists>s'. on_message example_host (example_inputs 1000) (Some tick_event) (init_state 0) = Inr s'
         \<and> get_prop (last (gwEvents s')) ''time'' = JNum 1000)"
  using event_time_field [of "[(''type'', JStr ''event''), (''event'', JStr ''tick''), (''time'', JNum 7)]"
          example_host "example_inputs 1000" "init_state 0"]
        event_time_field [of "[(''type'', JStr ''event''), (''event'', JStr ''tick''),
             (''payload'', JObj [(''seq'', JNum 1)])]"
          example_host "example_inputs 1000" "init_state 0"]
  unfolding timed_event_def tick_event_def
  by (simp add: example_inputs_def) blast

end
